theory Spec2Isabelle
  imports Main "HOL-Library.Sublist"
begin

section \<open>The TTL cache (backend/src/cache.js)\<close>

text \<open>
  The cache is a JavaScript \<open>Map\<close> from keys to entries \<open>{value, expiresAt, cachedAt}\<close>.
  Time is what \<open>Date.now()\<close> returns: an integer number of milliseconds. Every call of
  \<open>Date.now()\<close> in the source is one explicit clock reading of the model, so \<open>set\<close>, which
  reads the clock twice, takes two readings. A TTL is an integer number of seconds (the
  callers obtain it with \<open>parseInt\<close>). Each operation takes the store and returns the new
  store where the source mutates it; none of them has an error exit.
\<close>

type_synonym time = int

record 'v entry =
  val :: 'v
  expiresAt :: time
  cachedAt :: time

type_synonym ('k, 'v) store = "'k \<rightharpoonup> 'v entry"

definition cache_set :: "time \<Rightarrow> time \<Rightarrow> 'k \<Rightarrow> 'v \<Rightarrow> int \<Rightarrow> ('k, 'v) store \<Rightarrow> ('k, 'v) store" where
  "cache_set now1 now2 key v ttlSeconds store =
     store(key \<mapsto> \<lparr>val = v, expiresAt = now1 + ttlSeconds * 1000, cachedAt = now2\<rparr>)"

definition cache_get :: "time \<Rightarrow> 'k \<Rightarrow> ('k, 'v) store \<Rightarrow> 'v entry option \<times> ('k, 'v) store" where
  "cache_get now key store =
     (case store key of
        None \<Rightarrow> (None, store)
      | Some entry \<Rightarrow>
          if now > expiresAt entry then (None, store(key := None))
          else (Some entry, store))"

definition cache_has :: "time \<Rightarrow> 'k \<Rightarrow> ('k, 'v) store \<Rightarrow> bool \<times> ('k, 'v) store" where
  "cache_has now key store =
     (case cache_get now key store of (r, store') \<Rightarrow> (r \<noteq> None, store'))"

definition cache_delete :: "'k \<Rightarrow> ('k, 'v) store \<Rightarrow> ('k, 'v) store" where
  "cache_delete key store = store(key := None)"

definition cache_age :: "time \<Rightarrow> 'k \<Rightarrow> ('k, 'v) store \<Rightarrow> int option" where
  "cache_age now key store =
     (case store key of
        None \<Rightarrow> None
      | Some entry \<Rightarrow> Some ((now - cachedAt entry) div 1000))"

definition cache_flush :: "('k, 'v) store \<Rightarrow> ('k, 'v) store" where
  "cache_flush store = Map.empty"

section \<open>JavaScript strings\<close>

text \<open>
  A JavaScript string is modelled as a \<open>string\<close>, a list of 8-bit characters: the code
  units below 256. \<open>toLowerCase\<close> maps \<open>A\<close> to \<open>Z\<close> and the Latin-1 capitals
  (\<open>0xC0\<close> to \<open>0xDE\<close>, without the multiplication sign \<open>0xD7\<close>) to the code unit 32
  higher, which sets one bit of the character, and leaves every other code unit alone.
  \<open>String_num\<close> is \<open>String(n)\<close> and the template literal of a number \<open>n\<close> that is a
  natural number up to \<open>Number.MAX_SAFE_INTEGER\<close>, which is \<open>2^53 - 1\<close>: its decimal
  digits. Above that bound a JavaScript number prints with rounded digits, and from \<open>10^21\<close>
  on in exponent form; such numbers are outside the model, and a statement about
  \<open>String_num\<close> speaks of the code only up to the bound.
\<close>

definition toLowerCase_char :: "char \<Rightarrow> char" where
  "toLowerCase_char c =
     (let n = (of_char c :: nat)
      in if (65 \<le> n \<and> n \<le> 90) \<or> (192 \<le> n \<and> n \<le> 222 \<and> n \<noteq> 215)
         then (case c of Char b0 b1 b2 b3 b4 b5 b6 b7 \<Rightarrow> Char b0 b1 b2 b3 b4 True b6 b7)
         else c)"

definition toLowerCase :: "string \<Rightarrow> string" where
  "toLowerCase s = map toLowerCase_char s"

fun String_num :: "nat \<Rightarrow> string" where
  "String_num n =
     (if n < 10 then [''0123456789'' ! n]
      else String_num (n div 10) @ [''0123456789'' ! (n mod 10)])"

declare String_num.simps [simp del]

definition MAX_SAFE_INTEGER :: nat where
  "MAX_SAFE_INTEGER = 9007199254740991"

definition or_empty :: "string option \<Rightarrow> string" where
  \<comment> \<open>\<open>x || ''\<close> for a value that is a string or undefined\<close>
  "or_empty x = (case x of None \<Rightarrow> [] | Some s \<Rightarrow> s)"

section \<open>Match states and normalized matches (backend/src/cricbuzzScraper.js)\<close>

definition LIVE_STATES :: "string set" where
  "LIVE_STATES = {''in progress'', ''innings break'', ''strategic timeout'',
                  ''rain'', ''bad light'', ''stumps'', ''drinks'', ''tea'', ''lunch'', ''in break''}"

definition ENDED_STATES :: "string set" where
  "ENDED_STATES = {''complete'', ''result'', ''abandoned'', ''no result'', ''cancelled''}"

record state_flags =
  matchStarted :: bool
  matchEnded :: bool

text \<open>The parameter of \<open>parseState\<close> has the default \<open>''\<close>, used when it is undefined.\<close>

definition parseState :: "string option \<Rightarrow> state_flags" where
  "parseState state =
     (let s = toLowerCase (case state of None \<Rightarrow> [] | Some x \<Rightarrow> x);
          ended = s \<in> ENDED_STATES;
          started = ended \<or> s \<in> LIVE_STATES
      in \<lparr>matchStarted = started, matchEnded = ended\<rparr>)"

text \<open>
  The raw match descriptor of the embedded JSON, with the fields that \<open>normalizeMatch\<close>
  reads for the id, the match type, the status, the two flags and the team names. The
  fields \<open>name\<close>, \<open>dateTimeGMT\<close>, \<open>teamInfo\<close> and \<open>score\<close> of the result are built from
  other fields of the descriptor and are left out of the model. The external match id is a
  natural number; what is proved of the id is proved for a match id up to
  \<open>MAX_SAFE_INTEGER\<close>.
\<close>

record team =
  teamName :: "string option"

record matchInfo =
  matchId :: nat
  state :: "string option"
  status :: "string option"
  matchFormat :: "string option"
  team1 :: "team option"
  team2 :: "team option"

record match = state_flags +
  id_m :: string
  matchType :: string
  status_m :: string
  teams :: "string list"

definition team_name :: "team option \<Rightarrow> string option" where
  \<comment> \<open>\<open>t?.teamName\<close>\<close>
  "team_name t = (case t of None \<Rightarrow> None | Some x \<Rightarrow> teamName x)"

definition normalizeMatch :: "matchInfo \<Rightarrow> string \<Rightarrow> match" where
  "normalizeMatch info slug =
     (let flags = parseState (state info);
          t1 = team1 info;
          t2 = team2 info;
          ident = (if slug \<noteq> [] then String_num (matchId info) @ ''~'' @ slug
                   else String_num (matchId info))
      in \<lparr>matchStarted = matchStarted flags,
          matchEnded = matchEnded flags,
          id_m = ident,
          matchType = toLowerCase (or_empty (matchFormat info)),
          status_m = or_empty (status info),
          teams = filter (\<lambda>n. n \<noteq> []) (map or_empty [team_name t1, team_name t2])\<rparr>)"

section \<open>Serving the merged match list (backend/src/routes.js)\<close>

text \<open>
  The loop of the \<open>/matches\<close> handler over \<open>[...currentData, ...upcomingData]\<close>: \<open>seen\<close>
  is the set of ids met so far and \<open>merged\<close> the list built so far.
\<close>

fun merge_loop :: "string set \<Rightarrow> ('a match_scheme) list \<Rightarrow> ('a match_scheme) list \<Rightarrow> ('a match_scheme) list" where
  "merge_loop seen merged [] = merged"
| "merge_loop seen merged (m # ms) =
     (if id_m m \<notin> seen then merge_loop (insert (id_m m) seen) (merged @ [m]) ms
      else merge_loop seen merged ms)"

definition merge_matches :: "('a match_scheme) list \<Rightarrow> ('a match_scheme) list \<Rightarrow> ('a match_scheme) list" where
  "merge_matches currentData upcomingData = merge_loop {} [] (currentData @ upcomingData)"

datatype 'm response = Unavailable | Success "'m list" "int option"

text \<open>
  The handler itself: two reads of the cache, the answer 503 when both are absent, else the
  merged list with the age of the \<open>currentMatches\<close> entry. The cached value is the list
  under \<open>data\<close>.
\<close>

definition matches_route ::
  "time \<Rightarrow> time \<Rightarrow> time \<Rightarrow> (string, ('a match_scheme) list) store
     \<Rightarrow> ('a match_scheme) response \<times> (string, ('a match_scheme) list) store" where
  "matches_route now1 now2 now3 store =
     (case cache_get now1 ''currentMatches'' store of (current, store1) \<Rightarrow>
      case cache_get now2 ''upcomingMatches'' store1 of (upcoming, store2) \<Rightarrow>
        if current = None \<and> upcoming = None then (Unavailable, store2)
        else
          let currentData = (case current of None \<Rightarrow> [] | Some e \<Rightarrow> val e);
              upcomingData = (case upcoming of None \<Rightarrow> [] | Some e \<Rightarrow> val e);
              merged = merge_matches currentData upcomingData;
              age = (if current \<noteq> None then cache_age now3 ''currentMatches'' store2 else None)
          in (Success merged age, store2))"

text \<open>
  What the loop computes, written without the accumulator: the elements whose id is neither
  in \<open>seen\<close> nor carried by an earlier element.
\<close>

fun first_seen :: "string set \<Rightarrow> ('a match_scheme) list \<Rightarrow> ('a match_scheme) list" where
  "first_seen seen [] = []"
| "first_seen seen (m # ms) =
     (if id_m m \<notin> seen then m # first_seen (insert (id_m m) seen) ms
      else first_seen seen ms)"

section \<open>Requests for a scorecard or for match info (backend/src/cricbuzzScraper.js)\<close>

text \<open>
  A thrown JavaScript \<open>Error\<close> is a value that carries its message. The network is a
  parameter: for a URL, \<open>fetch\<close> either rejects with an error or resolves with a response
  that has a status code and a page text. The effect of \<open>fetchPage\<close> is the list of the URLs
  requested so far, passed in and returned with the new request at its end.
\<close>

datatype error = Error string

fun message :: "error \<Rightarrow> string" where
  "message (Error m) = m"

record http_response =
  status_code :: nat
  page :: string

type_synonym network = "string \<Rightarrow> error + http_response"

definition CB_BASE :: string where
  "CB_BASE = ''https://www.cricbuzz.com''"

definition fetchPage :: "network \<Rightarrow> string \<Rightarrow> string list \<Rightarrow> (error + string) \<times> string list" where
  "fetchPage net path requested =
     (let requested' = requested @ [CB_BASE @ path]
      in case net (CB_BASE @ path) of
           Inl e \<Rightarrow> (Inl e, requested')
         | Inr res \<Rightarrow>
             if 200 \<le> status_code res \<and> status_code res \<le> 299 then (Inr (page res), requested')
             else (Inl (Error (''Cricbuzz HTTP '' @ String_num (status_code res) @ '' for '' @ path)),
                   requested'))"

text \<open>\<open>s.split(sep)\<close> for a one-character separator: never the empty list.\<close>

fun split_on :: "char \<Rightarrow> string \<Rightarrow> string list" where
  "split_on sep [] = [[]]"
| "split_on sep (c # cs) =
     (if c = sep then [] # split_on sep cs
      else (case split_on sep cs of
              [] \<Rightarrow> [[c]]
            | p # ps \<Rightarrow> (c # p) # ps))"

definition destructure_pair :: "string list \<Rightarrow> string option \<times> string option" where
  \<comment> \<open>\<open>const [matchId, slug] = parts\<close>: a missing element is undefined\<close>
  "destructure_pair parts =
     (case parts of
        [] \<Rightarrow> (None, None)
      | [a] \<Rightarrow> (Some a, None)
      | a # b # _ \<Rightarrow> (Some a, Some b))"

definition falsy :: "string option \<Rightarrow> bool" where
  "falsy x = (x = None \<or> x = Some [])"

text \<open>
  The two HTML parsers are built on the \<open>cheerio\<close> library and are parameters here.
\<close>

definition getScorecard ::
  "network \<Rightarrow> (string \<Rightarrow> 'sc) \<Rightarrow> string \<Rightarrow> string list \<Rightarrow> (error + 'sc) \<times> string list" where
  "getScorecard net parseScorecardHtml ident requested =
     (case destructure_pair (split_on CHR ''~'' ident) of (matchId_p, slug) \<Rightarrow>
        if falsy matchId_p then (Inl (Error (''Invalid match id: '' @ ident)), requested)
        else
          let path = (if \<not> falsy slug
                      then ''/live-cricket-scorecard/'' @ or_empty matchId_p @ ''/'' @ or_empty slug
                      else ''/live-cricket-scorecard/'' @ or_empty matchId_p)
          in case fetchPage net path requested of
               (Inl e, requested') \<Rightarrow> (Inl e, requested')
             | (Inr html, requested') \<Rightarrow> (Inr (parseScorecardHtml html), requested'))"

definition getMatchInfo ::
  "network \<Rightarrow> (string \<Rightarrow> 'mi) \<Rightarrow> string \<Rightarrow> string list \<Rightarrow> (error + string \<times> 'mi) \<times> string list" where
  "getMatchInfo net parseMatchInfoHtml ident requested =
     (case destructure_pair (split_on CHR ''~'' ident) of (matchId_p, slug) \<Rightarrow>
        if falsy matchId_p then (Inl (Error (''Invalid match id: '' @ ident)), requested)
        else
          let path = (if \<not> falsy slug
                      then ''/live-cricket-scorecard/'' @ or_empty matchId_p @ ''/'' @ or_empty slug
                      else ''/live-cricket-scorecard/'' @ or_empty matchId_p)
          in case fetchPage net path requested of
               (Inl e, requested') \<Rightarrow> (Inl e, requested')
             | (Inr html, requested') \<Rightarrow> (Inr (ident, parseMatchInfoHtml html), requested'))"

section \<open>The two refresh strategies (the scheduled poller and the on-demand fetcher)\<close>

text \<open>
  Both files keep a counter, \<open>lastSuccess\<close> and \<open>lastError\<close> in module variables and write
  to the one cache. The state of the model is a record of these. The result of the awaited
  call of the scraper is a parameter: \<open>Inl\<close> of the error it throws (a timeout, a network
  error, a non-success status, a page without the expected data) or \<open>Inr\<close> of the data.
  The clock readings are those of \<open>cache.set\<close> and of \<open>new Date()\<close>.
\<close>

record 'v refresh_state =
  cache :: "(string, 'v) store"
  lastSuccess :: "time option"
  lastError :: "string option"

record 'v poller = "'v refresh_state" +
  pollCount :: nat

record 'v fetcher = "'v refresh_state" +
  fetchCount :: nat

definition pollCurrentMatches ::
  "int \<Rightarrow> error + 'v \<Rightarrow> time \<Rightarrow> time \<Rightarrow> time \<Rightarrow> 'v poller \<Rightarrow> 'v poller" where
  "pollCurrentMatches LIVE_TTL r now1 now2 now3 st =
     (let st1 = st\<lparr>pollCount := pollCount st + 1\<rparr>
      in case r of
           Inr data \<Rightarrow>
             st1\<lparr>cache := cache_set now1 now2 ''currentMatches'' data LIVE_TTL (cache st1),
                 lastSuccess := Some now3\<rparr>
         | Inl err \<Rightarrow> st1\<lparr>lastError := Some (message err)\<rparr>)"

definition pollUpcomingMatches ::
  "int \<Rightarrow> error + 'v \<Rightarrow> time \<Rightarrow> time \<Rightarrow> 'v poller \<Rightarrow> 'v poller" where
  "pollUpcomingMatches UPCOMING_TTL r now1 now2 st =
     (case r of
        Inr data \<Rightarrow> st\<lparr>cache := cache_set now1 now2 ''upcomingMatches'' data UPCOMING_TTL (cache st)\<rparr>
      | Inl err \<Rightarrow> st)"

definition poller_start ::
  "int \<Rightarrow> int \<Rightarrow> error + 'v \<Rightarrow> error + 'v \<Rightarrow> time \<Rightarrow> time \<Rightarrow> time \<Rightarrow> time \<Rightarrow> time
     \<Rightarrow> 'v poller \<Rightarrow> 'v poller" where
  \<comment> \<open>the two immediate polls of \<open>start\<close>; every later tick of the schedule is one more poll\<close>
  "poller_start LIVE_TTL UPCOMING_TTL r_current r_upcoming now1 now2 now3 now4 now5 st =
     pollUpcomingMatches UPCOMING_TTL r_upcoming now4 now5
       (pollCurrentMatches LIVE_TTL r_current now1 now2 now3 st)"

definition poller_status :: "'v poller \<Rightarrow> nat \<times> time option \<times> string option" where
  "poller_status st = (pollCount st, lastSuccess st, lastError st)"

definition fetchCurrentMatches ::
  "int \<Rightarrow> error + 'v \<Rightarrow> time \<Rightarrow> time \<Rightarrow> time \<Rightarrow> 'v fetcher \<Rightarrow> (error + unit) \<times> 'v fetcher" where
  "fetchCurrentMatches LIVE_TTL r now1 now2 now3 st =
     (let st1 = st\<lparr>fetchCount := fetchCount st + 1\<rparr>
      in case r of
           Inr data \<Rightarrow>
             (Inr (),
              st1\<lparr>cache := cache_set now1 now2 ''currentMatches'' data LIVE_TTL (cache st1),
                  lastSuccess := Some now3\<rparr>)
         | Inl err \<Rightarrow> (Inl err, st1\<lparr>lastError := Some (message err)\<rparr>))"

definition fetchUpcomingMatches ::
  "int \<Rightarrow> error + 'v \<Rightarrow> time \<Rightarrow> time \<Rightarrow> 'v fetcher \<Rightarrow> (error + unit) \<times> 'v fetcher" where
  "fetchUpcomingMatches UPCOMING_TTL r now1 now2 st =
     (case r of
        Inr data \<Rightarrow>
          (Inr (), st\<lparr>cache := cache_set now1 now2 ''upcomingMatches'' data UPCOMING_TTL (cache st)\<rparr>)
      | Inl err \<Rightarrow> (Inl err, st))"

definition fetcher_start ::
  "int \<Rightarrow> int \<Rightarrow> error + 'v \<Rightarrow> error + 'v \<Rightarrow> time \<Rightarrow> time \<Rightarrow> time \<Rightarrow> time \<Rightarrow> time
     \<Rightarrow> 'v fetcher \<Rightarrow> 'v fetcher" where
  \<comment> \<open>\<open>fetchCurrentMatches().catch(() => {}); fetchUpcomingMatches().catch(() => {})\<close>\<close>
  "fetcher_start LIVE_TTL UPCOMING_TTL r_current r_upcoming now1 now2 now3 now4 now5 st =
     snd (fetchUpcomingMatches UPCOMING_TTL r_upcoming now4 now5
       (snd (fetchCurrentMatches LIVE_TTL r_current now1 now2 now3 st)))"

definition fetcher_status :: "'v fetcher \<Rightarrow> nat \<times> time option \<times> string option \<times> string" where
  "fetcher_status st = (fetchCount st, lastSuccess st, lastError st, ''on-demand'')"

section \<open>Extraction of the embedded JSON (backend/src/cricbuzzScraper.js)\<close>

text \<open>
  \<open>html[i]\<close> is undefined outside the string, and \<open>html.slice(start, stop)\<close> counts a
  negative index from the end. The loop of \<open>extractJsonAt\<close> runs over the index \<open>i\<close> with
  the variables \<open>depth\<close> and \<open>start\<close>; the start index may be negative (it is what
  \<open>indexOf\<close> returned).
\<close>

definition char_at :: "string \<Rightarrow> int \<Rightarrow> char option" where
  "char_at s i = (if 0 \<le> i \<and> i < int (length s) then Some (s ! nat i) else None)"

definition slice :: "string \<Rightarrow> int \<Rightarrow> int \<Rightarrow> string" where
  "slice s start stop =
     (let n = int (length s);
          from = (if start < 0 then max (n + start) 0 else min start n);
          to = (if stop < 0 then max (n + stop) 0 else min stop n)
      in take (nat (to - from)) (drop (nat from) s))"

function extract_loop :: "string \<Rightarrow> int \<Rightarrow> int \<Rightarrow> int \<Rightarrow> string option" where
  "extract_loop html i depth start =
     (if i < int (length html) then
        (if char_at html i = Some CHR ''{'' then
           extract_loop html (i + 1) (depth + 1) (if depth = 0 then i else start)
         else if char_at html i = Some CHR ''}'' then
           (if depth - 1 = 0 \<and> start \<noteq> - 1 then Some (slice html start (i + 1))
            else extract_loop html (i + 1) (depth - 1) start)
         else extract_loop html (i + 1) depth start)
      else None)"
  by pat_completeness auto
termination
  by (relation "measure (\<lambda>(html, i, depth, start). nat (int (length html) - i))") auto

declare extract_loop.simps [simp del]

definition extractJsonAt :: "string \<Rightarrow> int \<Rightarrow> string option" where
  "extractJsonAt html startIdx = extract_loop html startIdx 0 (- 1)"

text \<open>
  The number of opening braces less the number of closing braces of a string, every brace
  character counted.
\<close>

definition brace_balance :: "string \<Rightarrow> int" where
  "brace_balance xs =
     int (length (filter (\<lambda>c. c = CHR ''{'') xs)) - int (length (filter (\<lambda>c. c = CHR ''}'') xs))"

definition dq :: char where
  \<comment> \<open>the double quote\<close>
  "dq = CHR 0x22"

section \<open>The Extras and Total lines of a scorecard (backend/src/cricbuzzScraper.js)\<close>

text \<open>
  \<open>text.match(re)\<close> without the flag \<open>g\<close> tries the pattern at each position from the left
  and answers with the first position where it matches: \<open>first_match\<close>, with the pattern
  tried at the start of a string as its first argument. The patterns of the source are
  written out as such functions. In \<open>b (\d+)\<close> the digits are taken greedily, so the group
  is the longest run of digits. In \<open>(\d+)[-/](\d+)\<close> a shorter first group is followed by
  a digit and never by the separator, so only the longest run can match; the same holds for
  the run of \<open>[0-9.]\<close> and the run of white space in \<open>\(([0-9.]+)\s+Ov\<close>. The class
  \<open>\s\<close> is given for the code units below 256. The unary plus reads a run of digits as a
  number, exactly so below \<open>2^53\<close>; the model has the natural number.
\<close>

definition is_digit :: "char \<Rightarrow> bool" where
  "is_digit c = (c \<in> set ''0123456789'')"

definition is_space :: "char \<Rightarrow> bool" where
  "is_space c = (c \<in> {CHR 0x09, CHR 0x0A, CHR 0x0B, CHR 0x0C, CHR 0x0D, CHR '' '', CHR 0xA0})"

definition is_word :: "char \<Rightarrow> bool" where
  "is_word c = (c \<in> set ''abcdefghijklmnopqrstuvwxyzABCDEFGHIJKLMNOPQRSTUVWXYZ0123456789_'')"

definition is_line_terminator :: "char \<Rightarrow> bool" where
  "is_line_terminator c = (c = CHR 0x0A \<or> c = CHR 0x0D)"

fun first_match :: "(string \<Rightarrow> 'a option) \<Rightarrow> string \<Rightarrow> 'a option" where
  "first_match at [] = at []"
| "first_match at (c # cs) =
     (case at (c # cs) of Some r \<Rightarrow> Some r | None \<Rightarrow> first_match at cs)"

definition digit_value :: "char \<Rightarrow> nat" where
  "digit_value c = of_char c - 48"

definition to_number :: "string \<Rightarrow> nat" where
  "to_number ds = foldl (\<lambda>n c. 10 * n + digit_value c) 0 ds"

definition num_or_zero :: "string option \<Rightarrow> nat" where
  "num_or_zero x = (case x of None \<Rightarrow> 0 | Some ds \<Rightarrow> to_number ds)"

definition label_at :: "string \<Rightarrow> string \<Rightarrow> string option" where
  "label_at label s =
     (if prefix (label @ '' '') s
      then (let ds = takeWhile is_digit (drop (length label + 1) s)
            in if ds = [] then None else Some ds)
      else None)"

record extras =
  b_x :: nat
  lb_x :: nat
  w_x :: nat
  nb_x :: nat
  p_x :: nat

definition parseExtras :: "string \<Rightarrow> extras" where
  "parseExtras text =
     (let b = first_match (label_at ''b'') text;
          lb = first_match (label_at ''lb'') text;
          w = first_match (label_at ''w'') text;
          nb = first_match (label_at ''nb'') text;
          p = first_match (label_at ''p'') text
      in \<lparr>b_x = num_or_zero b, lb_x = num_or_zero lb, w_x = num_or_zero w,
          nb_x = num_or_zero nb, p_x = num_or_zero p\<rparr>)"

definition score_at :: "string \<Rightarrow> (string \<times> string) option" where
  "score_at s =
     (let r = takeWhile is_digit s
      in if r = [] then None
         else (case dropWhile is_digit s of
                 [] \<Rightarrow> None
               | sep # u \<Rightarrow>
                   if sep = CHR ''-'' \<or> sep = CHR ''/''
                   then (let w = takeWhile is_digit u in if w = [] then None else Some (r, w))
                   else None))"

definition overs_at :: "string \<Rightarrow> string option" where
  "overs_at s =
     (case s of
        [] \<Rightarrow> None
      | c # t \<Rightarrow>
          if c \<noteq> CHR ''('' then None
          else
            let ov = takeWhile (\<lambda>c. is_digit c \<or> c = CHR ''.'') t;
                u = dropWhile (\<lambda>c. is_digit c \<or> c = CHR ''.'') t
            in if ov = [] \<or> takeWhile is_space u = [] then None
               else (case dropWhile is_space u of
                       a # b # _ \<Rightarrow>
                         if toLowerCase_char a = CHR ''o'' \<and> toLowerCase_char b = CHR ''v''
                         then Some ov else None
                     | _ \<Rightarrow> None))"

record total =
  r_t :: nat
  w_t :: nat
  o_t :: "string option"

definition parseTotal :: "string \<Rightarrow> total option" where
  "parseTotal text =
     (let scoreM = first_match score_at text;
          oversM = first_match overs_at text
      in case scoreM of
           None \<Rightarrow> None
         | Some (r, w) \<Rightarrow> Some \<lparr>r_t = to_number r, w_t = to_number w, o_t = oversM\<rparr>)"

section \<open>The toss of the match info (backend/src/cricbuzzScraper.js)\<close>

text \<open>
  \<open>parseMatchInfoHtml\<close> collects the rows of the facts table in the object \<open>facts\<close>, with
  the \<open>cheerio\<close> library, and derives the toss from \<open>facts['Toss']\<close>. The model starts from
  \<open>facts\<close>, a map from labels to values. With the flag \<open>i\<close> a lower-case letter of the
  pattern matches itself and its capital. \<open>^(.+?)\s+won the toss\<close> takes the shortest
  non-empty prefix without a line terminator that is followed by white space and the words:
  \<open>lazy_winner\<close>, with the prefix read so far as its first argument.
\<close>

definition ci_prefix :: "string \<Rightarrow> string \<Rightarrow> bool" where
  "ci_prefix lit s = (length lit \<le> length s \<and> map toLowerCase_char (take (length lit) s) = lit)"

definition ws_then_won :: "string \<Rightarrow> bool" where
  "ws_then_won s = (takeWhile is_space s \<noteq> [] \<and> ci_prefix ''won the toss'' (dropWhile is_space s))"

fun lazy_winner :: "string \<Rightarrow> string \<Rightarrow> string option" where
  "lazy_winner acc [] = None"
| "lazy_winner acc (c # cs) =
     (if is_line_terminator c then None
      else if ws_then_won cs then Some (acc @ [c])
      else lazy_winner (acc @ [c]) cs)"

definition choice_at :: "string \<Rightarrow> string option" where
  "choice_at s =
     (if ci_prefix ''opt to '' s
      then (let w = takeWhile is_word (drop 7 s) in if w = [] then None else Some w)
      else None)"

record toss =
  tossWinner :: string
  tossChoice :: string

definition parseMatchInfo_toss :: "(string \<rightharpoonup> string) \<Rightarrow> toss" where
  "parseMatchInfo_toss facts =
     (let tossText = or_empty (facts ''Toss'');
          tossWinnerM = lazy_winner [] tossText;
          tossChoiceM = first_match choice_at tossText
      in \<lparr>tossWinner = (case tossWinnerM of None \<Rightarrow> [] | Some g \<Rightarrow> g),
          tossChoice = (case tossChoiceM of None \<Rightarrow> [] | Some g \<Rightarrow> toLowerCase g)\<rparr>)"

section \<open>Properties of the cache\<close>

lemma cache_get_at_expiry:
  "cache_get (now_e + ttl * 1000) k (cache_set now_e now_c k v ttl s) =
     (Some \<lparr>val = v, expiresAt = now_e + ttl * 1000, cachedAt = now_c\<rparr>,
      cache_set now_e now_c k v ttl s)"
  by (simp add: cache_get_def cache_set_def)

text \<open>
  Claim C1. After \<open>set(k, v, ttl)\<close> with \<open>ttl > 0\<close>, a \<open>get(k)\<close> at the instant of the
  \<open>set\<close>, and at any instant up to \<open>expiresAt\<close>, returns the entry holding \<open>v\<close> and leaves
  the store as it is. A \<open>get(k)\<close> at an instant after \<open>expiresAt\<close>, that is more than \<open>ttl\<close>
  seconds after the \<open>set\<close>, returns absent and removes the entry from the store. A \<open>get\<close> of
  a key that is not in the store returns absent and leaves the store as it is. A miss is the
  value \<open>None\<close>: \<open>cache_get\<close> has no error result. (At the instant \<open>expiresAt\<close> itself the
  entry is still returned, see \<open>cache_get_at_expiry\<close>: the source tests \<open>now > expiresAt\<close>.)
\<close>

theorem cache_set_get_expire:
  fixes ttl :: int and s s_miss :: "('k, 'v) store"
  assumes "ttl > 0"
    and "now_fresh \<le> now_e + ttl * 1000"
    and "now_late > now_e + ttl * 1000"
    and "s_miss k_miss = None"
  shows "map_option val (fst (cache_get now_e k (cache_set now_e now_c k v ttl s))) = Some v
       \<and> cache_get now_fresh k (cache_set now_e now_c k v ttl s) =
           (Some \<lparr>val = v, expiresAt = now_e + ttl * 1000, cachedAt = now_c\<rparr>,
            cache_set now_e now_c k v ttl s)
       \<and> cache_get now_late k (cache_set now_e now_c k v ttl s) =
           (None, (cache_set now_e now_c k v ttl s)(k := None))
       \<and> snd (cache_get now_late k (cache_set now_e now_c k v ttl s)) k = None
       \<and> cache_get now_any k_miss s_miss = (None, s_miss)"
  using assms by (simp add: cache_get_def cache_set_def)

theorem cache_set_get_expire_witness:
  "map_option val (fst (cache_get 5000 ''currentMatches''
       (cache_set 5000 5001 ''currentMatches'' (7::nat) 30 Map.empty))) = Some 7
   \<and> fst (cache_get 35000 ''currentMatches''
       (cache_set 5000 5001 ''currentMatches'' (7::nat) 30 Map.empty)) =
         Some \<lparr>val = 7, expiresAt = 35000, cachedAt = 5001\<rparr>
   \<and> fst (cache_get 35001 ''currentMatches''
       (cache_set 5000 5001 ''currentMatches'' (7::nat) 30 Map.empty)) = None
   \<and> snd (cache_get 35001 ''currentMatches''
       (cache_set 5000 5001 ''currentMatches'' (7::nat) 30 Map.empty)) ''currentMatches'' = None
   \<and> fst (cache_get 0 ''upcomingMatches'' (Map.empty :: (string, nat) store)) = None"
  using cache_set_get_expire [where ttl = 30 and now_e = 5000 and now_c = 5001
      and now_fresh = 35000 and now_late = 35001 and now_any = 0
      and k = "''currentMatches''" and v = "7::nat" and s = Map.empty
      and k_miss = "''upcomingMatches''" and s_miss = Map.empty]
  by simp

text \<open>
  Claim C8, as the code has it. \<open>age(k)\<close> is the whole number of seconds \<open>now - cachedAt\<close>
  for every entry that is in the store, whether or not it has expired, and absent for a key
  that is not in the store. It is absent for an expired entry only once a \<open>get(k)\<close> has
  evicted that entry.
\<close>

theorem cache_age_resident:
  fixes s :: "('k, 'v) store"
  assumes "s k = Some e" and "s_miss k_miss = None" and "now_late > expiresAt e"
  shows "cache_age now k s = Some ((now - cachedAt e) div 1000)
       \<and> cache_age now k_miss s_miss = None
       \<and> cache_age now_late k s = Some ((now_late - cachedAt e) div 1000)
       \<and> cache_age now' k (snd (cache_get now_late k s)) = None"
  using assms by (simp add: cache_age_def cache_get_def)

theorem cache_age_resident_witness:
  "cache_age 7500 ''k'' (cache_set 0 0 ''k'' (1::nat) 1 Map.empty) = Some 7
   \<and> cache_age 7500 ''j'' (cache_set 0 0 ''k'' (1::nat) 1 Map.empty) = None
   \<and> cache_age 9000 ''k'' (snd (cache_get 7500 ''k'' (cache_set 0 0 ''k'' (1::nat) 1 Map.empty))) = None"
  using cache_age_resident [where s = "cache_set 0 0 ''k'' (1::nat) 1 Map.empty"
      and k = "''k''" and e = "\<lparr>val = 1, expiresAt = 1000, cachedAt = 0\<rparr>"
      and s_miss = "cache_set 0 0 ''k'' (1::nat) 1 Map.empty" and k_miss = "''j''"
      and now = 7500 and now_late = 7500 and now' = 9000]
  by (simp add: cache_set_def)

text \<open>
  The claim C8 as the specification states it fails: an entry set at time 0 with a TTL of
  one second has expired at 5000 ms, and \<open>age\<close> still answers 5.
\<close>

theorem cache_age_expired_counterexample:
  "expiresAt (the (cache_set 0 0 ''k'' (1::nat) 1 Map.empty ''k'')) < 5000
   \<and> cache_age 5000 ''k'' (cache_set 0 0 ''k'' (1::nat) 1 Map.empty) = Some 5"
  by (simp add: cache_age_def cache_set_def)

section \<open>Properties of the match-list merge\<close>

lemma merge_loop_first_seen: "merge_loop seen merged ms = merged @ first_seen seen ms"
  by (induction ms arbitrary: seen merged) simp_all

lemma first_seen_ids: "set (map id_m (first_seen seen ms)) = set (map id_m ms) - seen"
  by (induction ms arbitrary: seen) auto

lemma first_seen_distinct: "distinct (map id_m (first_seen seen ms))"
proof (induction ms arbitrary: seen)
  case Nil
  show ?case by simp
next
  case (Cons m ms)
  have "id_m m \<notin> set (map id_m (first_seen (insert (id_m m) seen) ms))"
    unfolding first_seen_ids by simp
  with Cons show ?case by simp
qed

lemma first_seen_find:
  "find (\<lambda>x. id_m x = i) (first_seen seen ms) =
     (if i \<in> seen then None else find (\<lambda>x. id_m x = i) ms)"
  by (induction ms arbitrary: seen) auto

lemma first_seen_subseq: "subseq (first_seen seen ms) ms"
  by (induction ms arbitrary: seen) auto

lemma find_append_case:
  "find P (xs @ ys) = (case find P xs of Some x \<Rightarrow> Some x | None \<Rightarrow> find P ys)"
  by (induction xs) auto

text \<open>
  Claim C3. The merged list has no two entries with the same id; its ids are exactly the ids
  of the two lists; it is a subsequence of the current list followed by the upcoming list,
  so the order of insertion is kept; the entry it holds for an id is the first one with that
  id, the one of the current list when there is one, else the first of the upcoming list.
  Merging ids \<open>1, 2\<close> with ids \<open>2, 3\<close> gives the two current entries followed by the
  upcoming entry \<open>3\<close>.
\<close>

theorem merge_matches_dedup:
  "distinct (map id_m (merge_matches current upcoming))
   \<and> set (map id_m (merge_matches current upcoming)) = set (map id_m current) \<union> set (map id_m upcoming)
   \<and> subseq (merge_matches current upcoming) (current @ upcoming)
   \<and> find (\<lambda>m. id_m m = i) (merge_matches current upcoming) =
       (case find (\<lambda>m. id_m m = i) current of
          Some m \<Rightarrow> Some m
        | None \<Rightarrow> find (\<lambda>m. id_m m = i) upcoming)
   \<and> merge_matches [a\<lparr>id_m := ''1''\<rparr>, b\<lparr>id_m := ''2''\<rparr>] [c\<lparr>id_m := ''2''\<rparr>, d\<lparr>id_m := ''3''\<rparr>] =
       [a\<lparr>id_m := ''1''\<rparr>, b\<lparr>id_m := ''2''\<rparr>, d\<lparr>id_m := ''3''\<rparr>]"
proof -
  have m: "merge_matches xs ys = first_seen {} (xs @ ys)" for xs ys :: "('a match_scheme) list"
    by (simp add: merge_matches_def merge_loop_first_seen)
  have "distinct (map id_m (merge_matches current upcoming))"
    unfolding m by (rule first_seen_distinct)
  moreover have "set (map id_m (merge_matches current upcoming)) =
      set (map id_m current) \<union> set (map id_m upcoming)"
    unfolding m first_seen_ids by simp
  moreover have "subseq (merge_matches current upcoming) (current @ upcoming)"
    unfolding m by (rule first_seen_subseq)
  moreover have "find (\<lambda>m. id_m m = i) (merge_matches current upcoming) =
       (case find (\<lambda>m. id_m m = i) current of
          Some m \<Rightarrow> Some m
        | None \<Rightarrow> find (\<lambda>m. id_m m = i) upcoming)"
    unfolding m first_seen_find by (simp add: find_append_case)
  moreover have "merge_matches [a\<lparr>id_m := ''1''\<rparr>, b\<lparr>id_m := ''2''\<rparr>] [c\<lparr>id_m := ''2''\<rparr>, d\<lparr>id_m := ''3''\<rparr>] =
       [a\<lparr>id_m := ''1''\<rparr>, b\<lparr>id_m := ''2''\<rparr>, d\<lparr>id_m := ''3''\<rparr>]"
    by (simp add: merge_matches_def)
  ultimately show ?thesis by blast
qed

section \<open>Properties of the state classifier and of the composite id\<close>

lemma String_num_digits: "set (String_num n) \<subseteq> set ''0123456789''"
proof (induction n rule: String_num.induct)
  case (1 n)
  have d: "''0123456789'' ! k \<in> set ''0123456789''" if "k < 10" for k :: nat
    using that by (intro nth_mem) simp
  show ?case
  proof (cases "n < 10")
    case True
    then show ?thesis using d[of n] by (subst String_num.simps) simp
  next
    case False
    then show ?thesis using 1 d[of "n mod 10"] by (subst String_num.simps) simp
  qed
qed

lemma String_num_no_tilde: "CHR ''~'' \<notin> set (String_num n)"
  using String_num_digits [of n] by auto

lemma String_num_not_empty: "String_num n \<noteq> []"
  by (subst String_num.simps) simp

text \<open>
  Claim C4. For every state string \<open>s\<close>, \<open>matchEnded\<close> is set exactly when the lowercased
  \<open>s\<close> is one of the five ended states, and \<open>matchStarted\<close> exactly when it is one of the
  five ended or of the ten live states; a state \<open>u\<close> whose lowercased form is in neither set
  gives both flags false; a state \<open>e\<close> with \<open>matchEnded\<close> set has \<open>matchStarted\<close> set.
  \<open>In Progress\<close> is started and not ended, \<open>Complete\<close> is started and ended, \<open>Scheduled\<close>
  is neither.
\<close>

theorem parseState_classifies:
  assumes "toLowerCase u \<notin> {''complete'', ''result'', ''abandoned'', ''no result'', ''cancelled''}
             \<union> {''in progress'', ''innings break'', ''strategic timeout'', ''rain'', ''bad light'',
                 ''stumps'', ''drinks'', ''tea'', ''lunch'', ''in break''}"
    and "matchEnded (parseState (Some e))"
  shows "matchEnded (parseState (Some s)) =
           (toLowerCase s \<in> {''complete'', ''result'', ''abandoned'', ''no result'', ''cancelled''})
       \<and> matchStarted (parseState (Some s)) =
           (toLowerCase s \<in> {''complete'', ''result'', ''abandoned'', ''no result'', ''cancelled''}
             \<union> {''in progress'', ''innings break'', ''strategic timeout'', ''rain'', ''bad light'',
                 ''stumps'', ''drinks'', ''tea'', ''lunch'', ''in break''})
       \<and> parseState (Some u) = \<lparr>matchStarted = False, matchEnded = False\<rparr>
       \<and> matchStarted (parseState (Some e))
       \<and> parseState (Some ''In Progress'') = \<lparr>matchStarted = True, matchEnded = False\<rparr>
       \<and> parseState (Some ''Complete'') = \<lparr>matchStarted = True, matchEnded = True\<rparr>
       \<and> parseState (Some ''Scheduled'') = \<lparr>matchStarted = False, matchEnded = False\<rparr>"
proof -
  have ex: "toLowerCase ''In Progress'' = ''in progress''" "toLowerCase ''Complete'' = ''complete''"
    "toLowerCase ''Scheduled'' = ''scheduled''"
    by (simp_all add: toLowerCase_def toLowerCase_char_def)
  have 1: "matchEnded (parseState (Some x)) = (toLowerCase x \<in> ENDED_STATES)" for x
    by (simp add: parseState_def Let_def)
  have 2: "matchStarted (parseState (Some x)) = (toLowerCase x \<in> ENDED_STATES \<union> LIVE_STATES)" for x
    by (simp add: parseState_def Let_def)
  have 3: "parseState (Some x) = \<lparr>matchStarted = matchStarted (parseState (Some x)),
      matchEnded = matchEnded (parseState (Some x))\<rparr>" for x
    by simp
  have u: "parseState (Some u) = \<lparr>matchStarted = False, matchEnded = False\<rparr>"
    using assms(1) by (subst 3) (simp add: 1 2 ENDED_STATES_def LIVE_STATES_def)
  have e: "matchStarted (parseState (Some e))"
    using assms(2) by (simp add: 1 2)
  have a: "parseState (Some ''In Progress'') = \<lparr>matchStarted = True, matchEnded = False\<rparr>"
    by (subst 3) (simp add: 1 2 ex ENDED_STATES_def LIVE_STATES_def)
  have b: "parseState (Some ''Complete'') = \<lparr>matchStarted = True, matchEnded = True\<rparr>"
    by (subst 3) (simp add: 1 2 ex ENDED_STATES_def LIVE_STATES_def)
  have c: "parseState (Some ''Scheduled'') = \<lparr>matchStarted = False, matchEnded = False\<rparr>"
    by (subst 3) (simp add: 1 2 ex ENDED_STATES_def LIVE_STATES_def)
  show ?thesis
    using u e a b c by (simp add: 1 2 ENDED_STATES_def LIVE_STATES_def)
qed

theorem parseState_classifies_witness:
  "matchEnded (parseState (Some ''STUMPS'')) = False
   \<and> matchStarted (parseState (Some ''STUMPS'')) = True
   \<and> parseState (Some ''Toss'') = \<lparr>matchStarted = False, matchEnded = False\<rparr>
   \<and> matchStarted (parseState (Some ''No Result''))"
proof -
  have l: "toLowerCase ''STUMPS'' = ''stumps''" "toLowerCase ''Toss'' = ''toss''"
    "toLowerCase ''No Result'' = ''no result''"
    by (simp_all add: toLowerCase_def toLowerCase_char_def)
  have h1: "toLowerCase ''Toss'' \<notin> {''complete'', ''result'', ''abandoned'', ''no result'', ''cancelled''}
             \<union> {''in progress'', ''innings break'', ''strategic timeout'', ''rain'', ''bad light'',
                 ''stumps'', ''drinks'', ''tea'', ''lunch'', ''in break''}"
    by (simp add: l)
  have h2: "matchEnded (parseState (Some ''No Result''))"
    by (simp add: parseState_def Let_def l ENDED_STATES_def)
  show ?thesis
    using parseState_classifies [OF h1 h2, of "''STUMPS''"] by (simp add: l)
qed

lemma digit_value_nth: "k < 10 \<Longrightarrow> digit_value (''0123456789'' ! k) = k"
proof -
  assume "k < 10"
  then have "k \<in> set [0..<10]" by simp
  moreover have "\<forall>j \<in> set [0..<10]. digit_value (''0123456789'' ! j) = j"
    by (simp add: digit_value_def upt_rec)
  ultimately show ?thesis by blast
qed

lemma to_number_snoc: "to_number (ds @ [c]) = 10 * to_number ds + digit_value c"
  by (simp add: to_number_def)

lemma to_number_String_num: "to_number (String_num n) = n"
proof (induction n rule: String_num.induct)
  case (1 n)
  show ?case
  proof (cases "n < 10")
    case True
    then show ?thesis
      by (subst String_num.simps) (simp add: to_number_def digit_value_nth)
  next
    case False
    then have "to_number (String_num (n div 10)) = n div 10"
      using 1 by simp
    with False show ?thesis
      by (subst String_num.simps) (simp add: to_number_snoc digit_value_nth)
  qed
qed

lemma String_num_zero: "String_num n = ''0'' \<Longrightarrow> n = 0"
proof -
  assume "String_num n = ''0''"
  then have "to_number (String_num n) = to_number ''0''" by simp
  moreover have "to_number ''0'' = 0" by (simp add: to_number_def digit_value_def)
  ultimately show "n = 0" by (simp only: to_number_String_num)
qed

lemma String_num_no_leading_zero: "String_num n = ''0'' \<or> hd (String_num n) \<noteq> CHR ''0''"
proof (induction n rule: String_num.induct)
  case (1 n)
  show ?case
  proof (cases "n < 10")
    case True
    then have "n \<in> set [0..<10]" by simp
    moreover have "\<forall>j \<in> set [0..<10]. [''0123456789'' ! j] = ''0'' \<or> hd [''0123456789'' ! j] \<noteq> CHR ''0''"
      by (simp add: upt_rec)
    ultimately have "[''0123456789'' ! n] = ''0'' \<or> hd [''0123456789'' ! n] \<noteq> CHR ''0''"
      by blast
    with True show ?thesis by (subst (1 2) String_num.simps) simp
  next
    case False
    then have ne: "n div 10 \<noteq> 0" by simp
    have "String_num (n div 10) \<noteq> ''0''"
    proof
      assume "String_num (n div 10) = ''0''"
      then have "n div 10 = 0" by (rule String_num_zero)
      with ne show False by simp
    qed
    with 1 False have "hd (String_num (n div 10)) \<noteq> CHR ''0''" by simp
    with False show ?thesis
      by (subst (1 2) String_num.simps) (simp add: String_num_not_empty)
  qed
qed

text \<open>
  Claim C5. For a match id up to \<open>MAX_SAFE_INTEGER\<close>, the id of a normalized match is the
  numeric id, a tilde and the slug when the slug is not empty, and the numeric id alone when
  the slug is empty. The numeric id has no tilde in it: it is made of decimal digits only,
  it reads back as the match id, and it has no leading zero. So the part of the composite id
  before the first tilde is the numeric id, and the part after that tilde is the slug.
\<close>

theorem normalizeMatch_id:
  assumes "slug \<noteq> []" and "matchId info \<le> MAX_SAFE_INTEGER"
  shows "id_m (normalizeMatch info slug) = String_num (matchId info) @ ''~'' @ slug
       \<and> id_m (normalizeMatch info []) = String_num (matchId info)
       \<and> CHR ''~'' \<notin> set (id_m (normalizeMatch info []))
       \<and> takeWhile (\<lambda>c. c \<noteq> CHR ''~'') (id_m (normalizeMatch info slug)) = String_num (matchId info)
       \<and> id_m (normalizeMatch info slug) = id_m (normalizeMatch info []) @ ''~'' @ slug
       \<and> set (id_m (normalizeMatch info [])) \<subseteq> set ''0123456789''
       \<and> to_number (id_m (normalizeMatch info [])) = matchId info
       \<and> (id_m (normalizeMatch info []) = ''0'' \<or> hd (id_m (normalizeMatch info [])) \<noteq> CHR ''0'')"
proof -
  have bare: "id_m (normalizeMatch info []) = String_num (matchId info)"
    by (simp add: normalizeMatch_def Let_def)
  have full: "id_m (normalizeMatch info slug) = String_num (matchId info) @ ''~'' @ slug"
    using assms(1) by (simp add: normalizeMatch_def Let_def)
  have first: "takeWhile (\<lambda>c. c \<noteq> CHR ''~'') (String_num (matchId info) @ ''~'' @ slug) =
      String_num (matchId info)"
    using String_num_no_tilde [of "matchId info"]
    by (auto simp add: takeWhile_tail takeWhile_eq_all_conv)
  have digits: "set (String_num (matchId info)) \<subseteq> set ''0123456789''"
    by (rule String_num_digits)
  have value_n: "to_number (String_num (matchId info)) = matchId info"
    by (rule to_number_String_num)
  have lead: "String_num (matchId info) = ''0'' \<or> hd (String_num (matchId info)) \<noteq> CHR ''0''"
    by (rule String_num_no_leading_zero)
  show ?thesis
    unfolding bare full first
    using String_num_no_tilde [of "matchId info"] digits value_n lead by blast
qed

theorem normalizeMatch_id_witness:
  "id_m (normalizeMatch \<lparr>matchId = 118928, state = Some ''In Progress'', status = None,
        matchFormat = Some ''T20'', team1 = None, team2 = None\<rparr> ''ind-vs-aus-1st-t20i'') =
     ''118928~ind-vs-aus-1st-t20i''
   \<and> id_m (normalizeMatch \<lparr>matchId = 118928, state = Some ''In Progress'', status = None,
        matchFormat = Some ''T20'', team1 = None, team2 = None\<rparr> []) = ''118928''
   \<and> to_number (id_m (normalizeMatch \<lparr>matchId = 118928, state = Some ''In Progress'',
        status = None, matchFormat = Some ''T20'', team1 = None, team2 = None\<rparr> [])) = 118928"
proof -
  have n: "String_num 118928 = ''118928''"
    by (simp add: String_num.simps)
  have h: "''ind-vs-aus-1st-t20i'' \<noteq> []"
    by simp
  have b: "matchId \<lparr>matchId = 118928, state = Some ''In Progress'',
        status = None, matchFormat = Some ''T20'', team1 = None, team2 = None\<rparr> \<le> MAX_SAFE_INTEGER"
    by (simp add: MAX_SAFE_INTEGER_def)
  show ?thesis
    using normalizeMatch_id [OF h b]
    by (simp add: n to_number_def digit_value_def)
qed

section \<open>Properties of the requests by match id\<close>

lemma split_on_first: "\<exists>rest. split_on sep s = takeWhile (\<lambda>c. c \<noteq> sep) s # rest"
  by (induction s) auto

lemma split_on_no_sep: "sep \<notin> set m \<Longrightarrow> split_on sep m = [m]"
  by (induction m) auto

lemma split_on_sep_last: "sep \<notin> set m \<Longrightarrow> split_on sep (m @ [sep]) = [m, []]"
  by (induction m) auto

lemma invalid_when_first_part_empty:
  assumes "takeWhile (\<lambda>c. c \<noteq> CHR ''~'') ident = []"
  shows "fst (destructure_pair (split_on CHR ''~'' ident)) = Some []"
proof -
  obtain rest where "split_on CHR ''~'' ident = [] # rest"
    using split_on_first [of "CHR ''~''" ident] assms by auto
  then show ?thesis
    by (cases rest) (simp_all add: destructure_pair_def)
qed

text \<open>
  Claim C10. For an id \<open>bad\<close> whose part before the first tilde is empty (the empty id and
  the ids that begin with a tilde), \<open>getScorecard\<close> and \<open>getMatchInfo\<close> return the error
  \<open>Invalid match id\<close> and the list of requested URLs is what it was: nothing is fetched.
  For an id that is a non-empty part \<open>m\<close> without a tilde (a numeric id in particular),
  alone or followed by a tilde and an empty slug, the one URL requested is that of the path
  \<open>/live-cricket-scorecard/m\<close>.
\<close>

theorem invalid_id_no_fetch:
  assumes "takeWhile (\<lambda>c. c \<noteq> CHR ''~'') bad = []"
    and "m \<noteq> []" and "CHR ''~'' \<notin> set m"
  shows "getScorecard net ps bad requested = (Inl (Error (''Invalid match id: '' @ bad)), requested)
       \<and> getMatchInfo net pm bad requested = (Inl (Error (''Invalid match id: '' @ bad)), requested)
       \<and> snd (getScorecard net ps m requested) =
           requested @ [CB_BASE @ ''/live-cricket-scorecard/'' @ m]
       \<and> snd (getScorecard net ps (m @ ''~'') requested) =
           requested @ [CB_BASE @ ''/live-cricket-scorecard/'' @ m]
       \<and> snd (getMatchInfo net pm m requested) =
           requested @ [CB_BASE @ ''/live-cricket-scorecard/'' @ m]
       \<and> snd (getMatchInfo net pm (m @ ''~'') requested) =
           requested @ [CB_BASE @ ''/live-cricket-scorecard/'' @ m]"
proof -
  obtain a b where ab: "destructure_pair (split_on CHR ''~'' bad) = (a, b)"
    by (cases "destructure_pair (split_on CHR ''~'' bad)")
  with invalid_when_first_part_empty [OF assms(1)] have a: "a = Some []"
    by simp
  have bad1: "getScorecard net ps bad requested =
      (Inl (Error (''Invalid match id: '' @ bad)), requested)"
    by (simp add: getScorecard_def ab a falsy_def)
  have bad2: "getMatchInfo net pm bad requested =
      (Inl (Error (''Invalid match id: '' @ bad)), requested)"
    by (simp add: getMatchInfo_def ab a falsy_def)
  have s1: "destructure_pair (split_on CHR ''~'' m) = (Some m, None)"
    using assms(3) by (simp add: split_on_no_sep destructure_pair_def)
  have s2: "destructure_pair (split_on CHR ''~'' (m @ ''~'')) = (Some m, Some [])"
    using assms(3) by (simp add: split_on_sep_last destructure_pair_def)
  have f: "requested' = requested @ [CB_BASE @ path]"
    if "fetchPage net path requested = (r, requested')" for path r requested'
    using that by (auto simp add: fetchPage_def Let_def split: sum.splits if_splits)
  have g1: "snd (getScorecard net ps m requested) =
      requested @ [CB_BASE @ ''/live-cricket-scorecard/'' @ m]"
    using assms(2)
    by (auto simp add: getScorecard_def s1 falsy_def or_empty_def split: prod.splits sum.splits dest: f)
  have g2: "snd (getScorecard net ps (m @ ''~'') requested) =
      requested @ [CB_BASE @ ''/live-cricket-scorecard/'' @ m]"
    using assms(2)
    by (auto simp add: getScorecard_def s2 falsy_def or_empty_def split: prod.splits sum.splits dest: f)
  have g3: "snd (getMatchInfo net pm m requested) =
      requested @ [CB_BASE @ ''/live-cricket-scorecard/'' @ m]"
    using assms(2)
    by (auto simp add: getMatchInfo_def s1 falsy_def or_empty_def split: prod.splits sum.splits dest: f)
  have g4: "snd (getMatchInfo net pm (m @ ''~'') requested) =
      requested @ [CB_BASE @ ''/live-cricket-scorecard/'' @ m]"
    using assms(2)
    by (auto simp add: getMatchInfo_def s2 falsy_def or_empty_def split: prod.splits sum.splits dest: f)
  show ?thesis
    using bad1 bad2 g1 g2 g3 g4 by simp
qed

theorem invalid_id_no_fetch_witness:
  "getScorecard (\<lambda>url. Inl (Error ''offline'')) (\<lambda>html. html) ''~ind-vs-aus'' [] =
     (Inl (Error ''Invalid match id: ~ind-vs-aus''), [])
   \<and> getMatchInfo (\<lambda>url. Inl (Error ''offline'')) (\<lambda>html. html) ''~ind-vs-aus'' [] =
     (Inl (Error ''Invalid match id: ~ind-vs-aus''), [])
   \<and> snd (getScorecard (\<lambda>url. Inl (Error ''offline'')) (\<lambda>html. html) ''118928'' []) =
     [''https://www.cricbuzz.com/live-cricket-scorecard/118928'']
   \<and> snd (getMatchInfo (\<lambda>url. Inl (Error ''offline'')) (\<lambda>html. html) ''118928~'' []) =
     [''https://www.cricbuzz.com/live-cricket-scorecard/118928'']"
proof -
  have h1: "takeWhile (\<lambda>c. c \<noteq> CHR ''~'') ''~ind-vs-aus'' = []"
    by simp
  have h2: "''118928'' \<noteq> []"
    by simp
  have h3: "CHR ''~'' \<notin> set ''118928''"
    by simp
  show ?thesis
    using invalid_id_no_fetch [OF h1 h2 h3, of "\<lambda>url. Inl (Error ''offline'')" "\<lambda>html. html"
        "[]" "\<lambda>html. html"]
    by (simp add: CB_BASE_def)
qed

section \<open>Properties of a failed refresh\<close>

text \<open>
  Claim C2, as the code has it. When the fetch of \<open>currentMatches\<close> fails with an error, the
  scheduled poll and the on-demand fetch leave the whole cache as it was, record the message
  of the error in \<open>lastError\<close> and leave \<open>lastSuccess\<close> as it was. When the fetch of
  \<open>upcomingMatches\<close> fails, the cache, \<open>lastSuccess\<close> and \<open>lastError\<close> are all left as they
  were: that failure is logged and not recorded in the status. A scheduled poll returns
  normally; an on-demand fetch hands the error to its caller, and \<open>start\<close> discards it and
  leaves the cache as it was.
\<close>

theorem failed_refresh_keeps_cache:
  "cache (pollCurrentMatches LIVE_TTL (Inl (Error msg)) now1 now2 now3 st) = cache st
   \<and> lastError (pollCurrentMatches LIVE_TTL (Inl (Error msg)) now1 now2 now3 st) = Some msg
   \<and> lastSuccess (pollCurrentMatches LIVE_TTL (Inl (Error msg)) now1 now2 now3 st) = lastSuccess st
   \<and> fetchCurrentMatches LIVE_TTL (Inl (Error msg)) now1 now2 now3 ft =
       (Inl (Error msg), ft\<lparr>lastError := Some msg, fetchCount := fetchCount ft + 1\<rparr>)
   \<and> cache (snd (fetchCurrentMatches LIVE_TTL (Inl (Error msg)) now1 now2 now3 ft)) = cache ft
   \<and> lastError (snd (fetchCurrentMatches LIVE_TTL (Inl (Error msg)) now1 now2 now3 ft)) = Some msg
   \<and> lastSuccess (snd (fetchCurrentMatches LIVE_TTL (Inl (Error msg)) now1 now2 now3 ft)) =
       lastSuccess ft
   \<and> pollUpcomingMatches UPCOMING_TTL (Inl (Error msg)) now1 now2 st = st
   \<and> fetchUpcomingMatches UPCOMING_TTL (Inl (Error msg)) now1 now2 ft = (Inl (Error msg), ft)
   \<and> cache (poller_start LIVE_TTL UPCOMING_TTL (Inl (Error msg)) (Inl (Error msg')) now1 now2 now3
        now4 now5 st) = cache st
   \<and> cache (fetcher_start LIVE_TTL UPCOMING_TTL (Inl (Error msg)) (Inl (Error msg')) now1 now2 now3
        now4 now5 ft) = cache ft"
  by (simp add: pollCurrentMatches_def fetchCurrentMatches_def pollUpcomingMatches_def
      fetchUpcomingMatches_def poller_start_def fetcher_start_def Let_def)

text \<open>
  The claim C2 as the specification states it, for every refresh cycle, fails for the
  refresh of \<open>upcomingMatches\<close>: after a timeout of that fetch \<open>lastError\<close> is still empty,
  in the scheduled poller and in the on-demand fetcher.
\<close>

theorem failed_upcoming_refresh_counterexample:
  "lastError (pollUpcomingMatches 300 (Inl (Error ''network timeout'')) 1000 1000
      \<lparr>cache = Map.empty :: (string, nat) store, lastSuccess = None, lastError = None,
       pollCount = 1\<rparr>) = None
   \<and> lastError (snd (fetchUpcomingMatches 300 (Inl (Error ''network timeout'')) 1000 1000
      \<lparr>cache = Map.empty :: (string, nat) store, lastSuccess = None, lastError = None,
       fetchCount = 1\<rparr>)) = None"
  by (simp add: pollUpcomingMatches_def fetchUpcomingMatches_def)

section \<open>Properties of the extraction of the embedded JSON\<close>

lemma char_at_mid: "char_at (pre @ c # rest) (int (length pre)) = Some c"
  by (simp add: char_at_def)

lemma step_loop:
  "extract_loop (pre @ c # rest) (int (length pre)) d s =
     (if c = CHR ''{'' then
        extract_loop ((pre @ [c]) @ rest) (int (length (pre @ [c]))) (d + 1) (if d = 0 then int (length pre) else s)
      else if c = CHR ''}'' then
        (if d - 1 = 0 \<and> s \<noteq> - 1 then Some (slice (pre @ c # rest) s (int (length pre) + 1))
         else extract_loop ((pre @ [c]) @ rest) (int (length (pre @ [c]))) (d - 1) s)
      else extract_loop ((pre @ [c]) @ rest) (int (length (pre @ [c]))) d s)"
  by (subst extract_loop.simps) (simp add: char_at_mid ac_simps)

lemma end_loop: "extract_loop pre (int (length pre)) d s = None"
  by (subst extract_loop.simps) simp

lemma brace_balance_Cons:
  "brace_balance (c # cs) =
     (if c = CHR ''{'' then 1 else if c = CHR ''}'' then - 1 else 0) + brace_balance cs"
  by (simp add: brace_balance_def)

lemma prefix_shift:
  assumes "\<forall>n \<le> length (c # cs). P (brace_balance (take n (c # cs)))"
  shows "\<forall>n \<le> length cs. P ((if c = CHR ''{'' then 1 else if c = CHR ''}'' then - 1 else 0) + brace_balance (take n cs))"
proof (intro allI impI)
  fix n assume "n \<le> length cs"
  then have "Suc n \<le> length (c # cs)" by simp
  with assms have "P (brace_balance (take (Suc n) (c # cs)))" by blast
  then show "P ((if c = CHR ''{'' then 1 else if c = CHR ''}'' then - 1 else 0) + brace_balance (take n cs))"
    by (simp add: brace_balance_Cons)
qed

lemma loop_closes:
  assumes "\<forall>n \<le> length body. 1 \<le> d + brace_balance (take n body)"
    and "d + brace_balance body = 1" and "s \<noteq> - 1"
  shows "extract_loop (pre @ body @ CHR ''}'' # post) (int (length pre)) d s =
           Some (slice (pre @ body @ CHR ''}'' # post) s (int (length pre + length body) + 1))"
  using assms
proof (induction body arbitrary: pre d)
  case Nil
  then show ?case by (simp add: step_loop brace_balance_def)
next
  case (Cons c cs)
  let ?k = "(if c = CHR ''{'' then 1 else if c = CHR ''}'' then - 1 else 0) :: int"
  have a: "\<forall>n \<le> length cs. 1 \<le> (d + ?k) + brace_balance (take n cs)"
    using prefix_shift [of c cs "\<lambda>b. 1 \<le> d + b"] Cons.prems(1) by (simp add: add.assoc)
  have b: "(d + ?k) + brace_balance cs = 1"
    using Cons.prems(2) by (simp add: brace_balance_Cons)
  have d1: "1 \<le> d"
    using Cons.prems(1) by (auto simp add: brace_balance_def dest: spec [of _ 0])
  have dk: "1 \<le> d + ?k"
    using a by (auto simp add: brace_balance_def dest: spec [of _ 0])
  have ih: "extract_loop ((pre @ [c]) @ cs @ CHR ''}'' # post) (int (length (pre @ [c]))) (d + ?k) s =
      Some (slice ((pre @ [c]) @ cs @ CHR ''}'' # post) s (int (length (pre @ [c]) + length cs) + 1))"
    by (rule Cons.IH [OF a b Cons.prems(3)])
  have "extract_loop (pre @ c # (cs @ CHR ''}'' # post)) (int (length pre)) d s =
      extract_loop ((pre @ [c]) @ cs @ CHR ''}'' # post) (int (length (pre @ [c]))) (d + ?k) s"
    using d1 dk by (subst step_loop) auto
  with ih show ?case by simp
qed

lemma loop_never_closes:
  assumes "\<forall>n \<le> length rest. 1 \<le> d + brace_balance (take n rest)"
  shows "extract_loop (pre @ rest) (int (length pre)) d s = None"
  using assms
proof (induction rest arbitrary: pre d)
  case Nil
  then show ?case by (simp add: end_loop)
next
  case (Cons c cs)
  let ?k = "(if c = CHR ''{'' then 1 else if c = CHR ''}'' then - 1 else 0) :: int"
  have a: "\<forall>n \<le> length cs. 1 \<le> (d + ?k) + brace_balance (take n cs)"
    using prefix_shift [of c cs "\<lambda>b. 1 \<le> d + b"] Cons.prems(1) by (simp add: add.assoc)
  have d1: "1 \<le> d"
    using Cons.prems(1) by (auto simp add: brace_balance_def dest: spec [of _ 0])
  have dk: "1 \<le> d + ?k"
    using a by (auto simp add: brace_balance_def dest: spec [of _ 0])
  have ih: "extract_loop ((pre @ [c]) @ cs) (int (length (pre @ [c]))) (d + ?k) s = None"
    by (rule Cons.IH [OF a])
  have "extract_loop (pre @ c # cs) (int (length pre)) d s =
      extract_loop ((pre @ [c]) @ cs) (int (length (pre @ [c]))) (d + ?k) s"
    using d1 dk by (subst step_loop) auto
  with ih show ?case by simp
qed

lemma loop_skips:
  assumes "\<forall>c \<in> set junk. c \<noteq> CHR ''{'' \<and> c \<noteq> CHR ''}''"
  shows "extract_loop (pre @ junk @ rest) (int (length pre)) d s =
           extract_loop ((pre @ junk) @ rest) (int (length (pre @ junk))) d s"
  using assms
proof (induction junk arbitrary: pre)
  case Nil
  then show ?case by simp
next
  case (Cons c cs)
  have "extract_loop (pre @ c # (cs @ rest)) (int (length pre)) d s =
      extract_loop ((pre @ [c]) @ cs @ rest) (int (length (pre @ [c]))) d s"
    using Cons.prems by (subst step_loop) simp
  also have "\<dots> = extract_loop (((pre @ [c]) @ cs) @ rest) (int (length ((pre @ [c]) @ cs))) d s"
    using Cons.prems by (intro Cons.IH) simp
  finally show ?case by simp
qed

lemma loop_no_open:
  assumes "CHR ''{'' \<notin> set rest"
  shows "extract_loop (pre @ rest) (int (length pre)) d (- 1) = None"
  using assms
proof (induction rest arbitrary: pre d)
  case Nil
  then show ?case by (simp add: end_loop)
next
  case (Cons c cs)
  have "extract_loop ((pre @ [c]) @ cs) (int (length (pre @ [c]))) d' (- 1) = None" for d'
    using Cons.prems by (intro Cons.IH) simp
  then show ?case
    using Cons.prems by (subst step_loop) auto
qed

lemma slice_mid:
  "slice (pre @ mid @ post) (int (length pre)) (int (length pre + length mid)) = mid"
  by (simp add: slice_def Let_def)

lemma extract_from_prefix:
  assumes "\<forall>c \<in> set junk. c \<noteq> CHR ''{'' \<and> c \<noteq> CHR ''}''"
    and "\<forall>n \<le> length body. 0 \<le> brace_balance (take n body)"
    and "brace_balance body = 0"
    and "\<forall>n \<le> length rest. 0 \<le> brace_balance (take n rest)"
    and "CHR ''{'' \<notin> set tail"
  shows "extractJsonAt (pre @ junk @ CHR ''{'' # body @ CHR ''}'' # post) (int (length pre)) =
           Some (CHR ''{'' # body @ ''}'')
       \<and> extractJsonAt (pre @ junk @ CHR ''{'' # rest) (int (length pre)) = None
       \<and> extractJsonAt (pre @ tail) (int (length pre)) = None"
proof -
  have start: "extractJsonAt (pre @ junk @ CHR ''{'' # xs) (int (length pre)) =
      extract_loop (((pre @ junk) @ ''{'') @ xs) (int (length ((pre @ junk) @ ''{''))) 1
        (int (length (pre @ junk)))" for xs
  proof -
    have "extractJsonAt (pre @ junk @ CHR ''{'' # xs) (int (length pre)) =
        extract_loop ((pre @ junk) @ CHR ''{'' # xs) (int (length (pre @ junk))) 0 (- 1)"
      unfolding extractJsonAt_def using assms(1) by (rule loop_skips)
    also have "\<dots> = extract_loop (((pre @ junk) @ ''{'') @ xs) (int (length ((pre @ junk) @ ''{''))) 1
        (int (length (pre @ junk)))"
      by (subst step_loop) simp
    finally show ?thesis .
  qed
  have s: "int (length (pre @ junk)) \<noteq> - 1"
    by simp
  have b1: "\<forall>n \<le> length body. 1 \<le> 1 + brace_balance (take n body)"
    using assms(2) by simp
  have b2: "1 + brace_balance body = 1"
    using assms(3) by simp
  have "extractJsonAt (pre @ junk @ CHR ''{'' # body @ CHR ''}'' # post) (int (length pre)) =
      Some (slice (((pre @ junk) @ ''{'') @ body @ CHR ''}'' # post) (int (length (pre @ junk)))
        (int (length ((pre @ junk) @ ''{'') + length body) + 1))"
    unfolding start by (rule loop_closes [OF b1 b2 s])
  also have "slice (((pre @ junk) @ ''{'') @ body @ CHR ''}'' # post) (int (length (pre @ junk)))
        (int (length ((pre @ junk) @ ''{'') + length body) + 1) = CHR ''{'' # body @ ''}''"
    using slice_mid [of "pre @ junk" "CHR ''{'' # body @ ''}''" post] by (simp add: ac_simps)
  finally have found: "extractJsonAt (pre @ junk @ CHR ''{'' # body @ CHR ''}'' # post)
      (int (length pre)) = Some (CHR ''{'' # body @ ''}'')" .
  have r1: "\<forall>n \<le> length rest. 1 \<le> 1 + brace_balance (take n rest)"
    using assms(4) by simp
  have open_only: "extractJsonAt (pre @ junk @ CHR ''{'' # rest) (int (length pre)) = None"
    unfolding start by (rule loop_never_closes [OF r1])
  have none: "extractJsonAt (pre @ tail) (int (length pre)) = None"
    unfolding extractJsonAt_def using assms(5) by (rule loop_no_open)
  show ?thesis
    using found open_only none by simp
qed

lemma loop_negative_index: "i < 0 \<Longrightarrow> extract_loop html i d s = extract_loop html 0 d s"
proof (induction "nat (- i)" arbitrary: i)
  case 0
  then show ?case by simp
next
  case (Suc n)
  have step: "extract_loop html i d s = extract_loop html (i + 1) d s"
    using Suc.prems by (subst extract_loop.simps) (simp add: char_at_def)
  show ?case
  proof (cases "i + 1 = 0")
    case True
    with step show ?thesis by simp
  next
    case False
    with Suc.prems have "i + 1 < 0" by simp
    moreover have "n = nat (- (i + 1))" using Suc.hyps(2) by simp
    ultimately have "extract_loop html (i + 1) d s = extract_loop html 0 d s"
      by (rule Suc.hyps(1) [rotated])
    with step show ?thesis by simp
  qed
qed

lemma extractJsonAt_start:
  "\<exists>pre. html = pre @ drop (nat startIdx) html
     \<and> extractJsonAt html startIdx = extractJsonAt html (int (length pre))"
proof -
  consider "startIdx < 0" | "0 \<le> startIdx" "startIdx \<le> int (length html)"
    | "int (length html) < startIdx"
    by linarith
  then show ?thesis
  proof cases
    case 1
    then have "extractJsonAt html startIdx = extractJsonAt html (int (length ([] :: string)))"
      by (simp add: extractJsonAt_def loop_negative_index)
    moreover have "html = [] @ drop (nat startIdx) html"
      using 1 by simp
    ultimately show ?thesis by blast
  next
    case 2
    then have "int (length (take (nat startIdx) html)) = startIdx"
      by simp
    then have "extractJsonAt html startIdx = extractJsonAt html (int (length (take (nat startIdx) html)))"
      by simp
    moreover have "html = take (nat startIdx) html @ drop (nat startIdx) html"
      by simp
    ultimately show ?thesis by blast
  next
    case 3
    then have a: "extractJsonAt html startIdx = None"
      unfolding extractJsonAt_def by (subst extract_loop.simps) simp
    have b: "extractJsonAt html (int (length html)) = None"
      unfolding extractJsonAt_def by (rule end_loop)
    have "html = html @ drop (nat startIdx) html"
      using 3 by simp
    with a b show ?thesis by metis
  qed
qed

text \<open>
  Claim C6, as the code has it. The scan starts at the start index, from the beginning of
  the string when the index is negative; \<open>drop (nat startIdx) html\<close> is the text it runs
  over, empty when the index is beyond the end. Let no brace stand between the start and
  the first opening brace (the stretch \<open>junk\<close>). When the text after that brace is
  \<open>body\<close>, a closing brace and \<open>post\<close>, where no prefix of \<open>body\<close> has more closing
  than opening braces and \<open>body\<close> has as many of the one as of the other, the result is
  the opening brace, \<open>body\<close> and that closing brace: the substring up to the first closing
  brace at which the count of braces is even. Nested objects are inside \<open>body\<close>. Every
  brace character is counted, also one inside a quoted string. When no prefix of the text
  after the opening brace has more closing than opening braces, the result is absent; so it
  is when there is no opening brace at or after the start.
\<close>

theorem extractJsonAt_counts_braces:
  assumes "drop (nat startIdx) html = junk @ CHR ''{'' # body @ CHR ''}'' # post"
    and "\<forall>c \<in> set junk. c \<noteq> CHR ''{'' \<and> c \<noteq> CHR ''}''"
    and "\<forall>n \<le> length body. 0 \<le> brace_balance (take n body)"
    and "brace_balance body = 0"
    and "drop (nat idx_open) html_open = junk_open @ CHR ''{'' # rest"
    and "\<forall>c \<in> set junk_open. c \<noteq> CHR ''{'' \<and> c \<noteq> CHR ''}''"
    and "\<forall>n \<le> length rest. 0 \<le> brace_balance (take n rest)"
    and "CHR ''{'' \<notin> set (drop (nat idx_none) html_none)"
  shows "extractJsonAt html startIdx = Some (CHR ''{'' # body @ ''}'')
       \<and> extractJsonAt html_open idx_open = None
       \<and> extractJsonAt html_none idx_none = None"
proof -
  have e: "\<forall>n \<le> length ([] :: string). 0 \<le> brace_balance (take n [])"
    by (simp add: brace_balance_def)
  have z: "brace_balance [] = 0"
    by (simp add: brace_balance_def)
  have n: "CHR ''{'' \<notin> set []"
    by simp
  have j: "\<forall>c \<in> set ([] :: string). c \<noteq> CHR ''{'' \<and> c \<noteq> CHR ''}''"
    by simp
  have found: "extractJsonAt html startIdx = Some (CHR ''{'' # body @ ''}'')"
  proof -
    obtain pre where p: "html = pre @ drop (nat startIdx) html"
      and q: "extractJsonAt html startIdx = extractJsonAt html (int (length pre))"
      using extractJsonAt_start by blast
    from p have h: "html = pre @ junk @ CHR ''{'' # body @ CHR ''}'' # post"
      unfolding assms(1) .
    have "extractJsonAt (pre @ junk @ CHR ''{'' # body @ CHR ''}'' # post) (int (length pre)) =
        Some (CHR ''{'' # body @ ''}'')"
      using extract_from_prefix [OF assms(2) assms(3) assms(4) e n] by blast
    then have "extractJsonAt html (int (length pre)) = Some (CHR ''{'' # body @ ''}'')"
      by (subst h)
    with q show ?thesis by simp
  qed
  have open_only: "extractJsonAt html_open idx_open = None"
  proof -
    obtain pre where p: "html_open = pre @ drop (nat idx_open) html_open"
      and q: "extractJsonAt html_open idx_open = extractJsonAt html_open (int (length pre))"
      using extractJsonAt_start by blast
    from p have h: "html_open = pre @ junk_open @ CHR ''{'' # rest"
      unfolding assms(5) .
    have "extractJsonAt (pre @ junk_open @ CHR ''{'' # rest) (int (length pre)) = None"
      using extract_from_prefix [OF assms(6) e z assms(7) n] by blast
    then have "extractJsonAt html_open (int (length pre)) = None"
      by (subst h)
    with q show ?thesis by simp
  qed
  have none: "extractJsonAt html_none idx_none = None"
  proof -
    obtain pre where p: "html_none = pre @ drop (nat idx_none) html_none"
      and q: "extractJsonAt html_none idx_none = extractJsonAt html_none (int (length pre))"
      using extractJsonAt_start by blast
    have "extractJsonAt (pre @ drop (nat idx_none) html_none) (int (length pre)) = None"
      using extract_from_prefix [OF j e z e assms(8)] by blast
    then have "extractJsonAt html_none (int (length pre)) = None"
      using p by simp
    with q show ?thesis by simp
  qed
  show ?thesis
    using found open_only none by simp
qed

theorem extractJsonAt_counts_braces_witness:
  "extractJsonAt ''List:[1],x:{a:{b:1},c:2},y:3}'' 4 = Some ''{a:{b:1},c:2}''
   \<and> extractJsonAt ''a{b}'' (- 1) = Some ''{b}''
   \<and> extractJsonAt ''List:[1],x:{a:{b:1}'' 4 = None
   \<and> extractJsonAt ''{}'' 5 = None"
proof -
  have h1: "\<forall>c \<in> set '':[1],x:''. c \<noteq> CHR ''{'' \<and> c \<noteq> CHR ''}''"
    by simp
  have t: "take n ''a:{b:1},c:2'' \<in> set (prefixes ''a:{b:1},c:2'')" for n
    unfolding in_set_prefixes by (rule take_is_prefix)
  have h2: "\<forall>n \<le> length ''a:{b:1},c:2''. 0 \<le> brace_balance (take n ''a:{b:1},c:2'')"
  proof (intro allI impI)
    fix n
    have "\<forall>p \<in> set (prefixes ''a:{b:1},c:2''). 0 \<le> brace_balance p"
      by (simp add: brace_balance_def)
    then show "0 \<le> brace_balance (take n ''a:{b:1},c:2'')"
      using t [of n] by blast
  qed
  have h3: "brace_balance ''a:{b:1},c:2'' = 0"
    by (simp add: brace_balance_def)
  have u: "take n ''a:{b:1}'' \<in> set (prefixes ''a:{b:1}'')" for n
    unfolding in_set_prefixes by (rule take_is_prefix)
  have h4: "\<forall>n \<le> length ''a:{b:1}''. 0 \<le> brace_balance (take n ''a:{b:1}'')"
  proof (intro allI impI)
    fix n
    have "\<forall>p \<in> set (prefixes ''a:{b:1}''). 0 \<le> brace_balance p"
      by (simp add: brace_balance_def)
    then show "0 \<le> brace_balance (take n ''a:{b:1}'')"
      using u [of n] by blast
  qed
  have h5: "CHR ''{'' \<notin> set (drop (nat 5) ''{}'')"
    by simp
  have d1: "drop (nat 4) ''List:[1],x:{a:{b:1},c:2},y:3}'' =
      '':[1],x:'' @ CHR ''{'' # ''a:{b:1},c:2'' @ CHR ''}'' # '',y:3}''"
    by simp
  have d2: "drop (nat 4) ''List:[1],x:{a:{b:1}'' = '':[1],x:'' @ CHR ''{'' # ''a:{b:1}''"
    by simp
  have first: "extractJsonAt ''List:[1],x:{a:{b:1},c:2},y:3}'' 4 = Some ''{a:{b:1},c:2}''
      \<and> extractJsonAt ''List:[1],x:{a:{b:1}'' 4 = None \<and> extractJsonAt ''{}'' 5 = None"
    using extractJsonAt_counts_braces [OF d1 h1 h2 h3 d2 h1 h4 h5] by simp
  have g1: "\<forall>c \<in> set ''a''. c \<noteq> CHR ''{'' \<and> c \<noteq> CHR ''}''"
    by simp
  have g2: "\<forall>n \<le> length ''b''. 0 \<le> brace_balance (take n ''b'')"
    by (simp add: brace_balance_def take_Cons split: nat.split)
  have g3: "brace_balance ''b'' = 0"
    by (simp add: brace_balance_def)
  have g4: "drop (nat (- 1)) ''a{b}'' = ''a'' @ CHR ''{'' # ''b'' @ CHR ''}'' # []"
    by simp
  have second: "extractJsonAt ''a{b}'' (- 1) = Some ''{b}''"
    using extractJsonAt_counts_braces [OF g4 g1 g2 g3 d2 h1 h4 h5] by simp
  show ?thesis
    using first second by simp
qed

text \<open>
  The claim C6 as the specification states it fails twice. The input of the first line is
  an object with one member \<open>a\<close> whose value is the quoted string of one closing brace:
  the result stops at the brace inside the quotes and is not the object. In the second
  input a closing brace comes before the first opening brace: the result is absent although
  the object that begins at the first opening brace is complete.
\<close>

theorem extractJsonAt_quoted_brace_counterexample:
  "extractJsonAt (''{'' @ [dq] @ ''a'' @ [dq] @ '':'' @ [dq] @ ''}'' @ [dq] @ ''}'') 0 =
     Some (''{'' @ [dq] @ ''a'' @ [dq] @ '':'' @ [dq] @ ''}'')
   \<and> extractJsonAt (''{'' @ [dq] @ ''a'' @ [dq] @ '':'' @ [dq] @ ''}'' @ [dq] @ ''}'') 0 \<noteq>
     Some (''{'' @ [dq] @ ''a'' @ [dq] @ '':'' @ [dq] @ ''}'' @ [dq] @ ''}'')
   \<and> extractJsonAt ''}{}'' 0 = None"
  by (simp add: extractJsonAt_def extract_loop.simps char_at_def slice_def dq_def)

section \<open>Properties of the Extras and Total lines\<close>

lemmas line_eval = parseExtras_def parseTotal_def label_at_def score_at_def overs_at_def
  is_digit_def is_space_def to_number_def digit_value_def num_or_zero_def
  toLowerCase_char_def Let_def

lemma parseExtras_fixture:
  "parseExtras ''Extras 9 (b 0, lb 1, w 8, nb 0, p 0)'' =
     \<lparr>b_x = 0, lb_x = 1, w_x = 8, nb_x = 0, p_x = 0\<rparr>"
  by (simp add: line_eval)

lemma parseExtras_no_label: "parseExtras ''Extras 0'' = \<lparr>b_x = 0, lb_x = 0, w_x = 0, nb_x = 0, p_x = 0\<rparr>"
  by (simp add: line_eval)

lemma parseTotal_fixture:
  "parseTotal ''Total 79-3 (18 Overs, RR: 4.39)'' = Some \<lparr>r_t = 79, w_t = 3, o_t = Some ''18''\<rparr>"
  by (simp add: line_eval)

lemma parseTotal_without_overs:
  "parseTotal ''Total 179/10'' = Some \<lparr>r_t = 179, w_t = 10, o_t = None\<rparr>"
  by (simp add: line_eval)

lemma parseTotal_without_score: "parseTotal ''Total (18 Overs)'' = None"
  by (simp add: line_eval)

text \<open>
  Claim C7 holds on the two fixture lines (\<open>parseExtras_fixture\<close>, \<open>parseTotal_fixture\<close>)
  and fails on an Extras line without the label \<open>b\<close>: the pattern \<open>b (\d+)\<close> has no word
  boundary and matches inside \<open>lb 1\<close>, so the byes are read as 1 where the claim has the
  default 0.
\<close>

theorem parseExtras_byes_from_leg_byes:
  "parseExtras ''Extras 1 (lb 1)'' = \<lparr>b_x = 1, lb_x = 1, w_x = 0, nb_x = 0, p_x = 0\<rparr>"
  by (simp add: line_eval)

section \<open>Properties of the toss\<close>

lemma first_match_None: "first_match at s = None \<longleftrightarrow> (\<forall>t \<in> set (suffixes s). at t = None)"
  by (induction s) (auto split: option.splits)

lemma first_match_Some: "first_match at s = Some r \<Longrightarrow> \<exists>t \<in> set (suffixes s). at t = Some r"
  by (induction s) (auto split: option.splits)

lemma choice_at_Some: "choice_at t = Some w \<Longrightarrow> w \<noteq> [] \<and> (\<forall>c \<in> set w. is_word c)"
  by (auto simp add: choice_at_def Let_def split: if_splits dest: set_takeWhileD)

lemma lower_word:
  assumes "is_word c"
  shows "toLowerCase_char c \<in> set ''abcdefghijklmnopqrstuvwxyz0123456789_''"
proof -
  have "\<forall>c \<in> set ''abcdefghijklmnopqrstuvwxyzABCDEFGHIJKLMNOPQRSTUVWXYZ0123456789_''.
      toLowerCase_char c \<in> set ''abcdefghijklmnopqrstuvwxyz0123456789_''"
    by (simp add: toLowerCase_char_def)
  with assms show ?thesis
    unfolding is_word_def by blast
qed

lemma first_match_choice_word:
  "set (case first_match choice_at s of None \<Rightarrow> [] | Some g \<Rightarrow> toLowerCase g)
     \<subseteq> set ''abcdefghijklmnopqrstuvwxyz0123456789_''"
proof (cases "first_match choice_at s")
  case None
  then show ?thesis by simp
next
  case (Some w)
  from first_match_Some [OF this] obtain t where "choice_at t = Some w"
    by blast
  then have "\<forall>c \<in> set w. is_word c"
    using choice_at_Some by blast
  then have "\<forall>c \<in> set w. toLowerCase_char c \<in> set ''abcdefghijklmnopqrstuvwxyz0123456789_''"
    using lower_word by blast
  with Some show ?thesis
    by (auto simp add: toLowerCase_def)
qed

lemma opt_to_length: "length ''opt to '' = 7"
  by simp

lemma won_the_toss_length: "length ''won the toss'' = 12"
  by simp

lemma lit_length: "map f x = lit \<Longrightarrow> length x = length lit"
  by (metis length_map)

lemma choice_at_split:
  assumes "choice_at s = Some w"
  obtains x c post where "s = x @ c # post" and "map toLowerCase_char x = ''opt to ''"
    and "is_word c"
proof -
  from assms have ci: "ci_prefix ''opt to '' s" and w: "takeWhile is_word (drop 7 s) \<noteq> []"
    by (auto simp add: choice_at_def Let_def split: if_splits)
  from w obtain c post where d: "drop 7 s = c # post" and c: "is_word c"
    by (cases "drop 7 s") (auto split: if_splits)
  have a: "s = take 7 s @ c # post"
    using d by (metis append_take_drop_id)
  have b: "map toLowerCase_char (take 7 s) = ''opt to ''"
    using ci unfolding ci_prefix_def opt_to_length by simp
  show thesis
    by (rule that [OF a b c])
qed

lemma choice_at_word:
  assumes "map toLowerCase_char x = ''opt to ''" and "word \<noteq> []"
    and "\<forall>c \<in> set word. is_word c" and "\<forall>c r. post = c # r \<longrightarrow> \<not> is_word c"
  shows "choice_at (x @ word @ post) = Some word"
proof -
  have l: "length x = 7"
    using lit_length [OF assms(1)] by simp
  have ci: "ci_prefix ''opt to '' (x @ word @ post)"
    using assms(1) l by (simp add: ci_prefix_def)
  have "takeWhile is_word post = []"
    using assms(4) by (cases post) simp_all
  then have "takeWhile is_word (word @ post) = word"
    using assms(3) by (simp add: takeWhile_append2)
  then show ?thesis
    using ci l assms(2) by (simp add: choice_at_def Let_def)
qed

lemma choice_at_some:
  assumes "map toLowerCase_char x = ''opt to ''" and "is_word c"
  shows "choice_at (x @ c # post) \<noteq> None"
proof -
  have l: "length x = 7"
    using lit_length [OF assms(1)] by simp
  have "ci_prefix ''opt to '' (x @ c # post)"
    using assms(1) l by (simp add: ci_prefix_def)
  then show ?thesis
    using l assms(2) by (simp add: choice_at_def Let_def)
qed

lemma first_match_skip:
  assumes "\<forall>k < length pre. at (drop k (pre @ s)) = None"
  shows "first_match at (pre @ s) = first_match at s"
  using assms
proof (induction pre)
  case Nil
  then show ?case by simp
next
  case (Cons c cs)
  have "at ((c # cs) @ s) = None"
    using Cons.prems by (auto dest: spec [of _ 0])
  moreover have "\<forall>k < length cs. at (drop k (cs @ s)) = None"
  proof (intro allI impI)
    fix k assume "k < length cs"
    then have "Suc k < length (c # cs)" by simp
    with Cons.prems have "at (drop (Suc k) ((c # cs) @ s)) = None" by blast
    then show "at (drop k (cs @ s)) = None" by simp
  qed
  ultimately show ?case using Cons.IH by simp
qed

lemma first_match_hit: "at s = Some r \<Longrightarrow> first_match at s = Some r"
  by (cases s) simp_all

lemma space_not_w: "is_space a \<Longrightarrow> toLowerCase_char a \<noteq> CHR ''w''"
  by (auto simp add: is_space_def toLowerCase_char_def)

lemma ws_then_won_split:
  assumes "ws_then_won r"
  obtains ws y rest where "r = ws @ y @ rest" and "ws \<noteq> []" and "\<forall>c \<in> set ws. is_space c"
    and "map toLowerCase_char y = ''won the toss''"
proof -
  let ?ws = "takeWhile is_space r" and ?d = "dropWhile is_space r"
  from assms have n: "?ws \<noteq> []" and ci: "ci_prefix ''won the toss'' ?d"
    by (simp_all add: ws_then_won_def)
  have a: "r = ?ws @ take 12 ?d @ drop 12 ?d"
    by simp
  have b: "\<forall>c \<in> set ?ws. is_space c"
    by (auto dest: set_takeWhileD)
  have c: "map toLowerCase_char (take 12 ?d) = ''won the toss''"
    using ci unfolding ci_prefix_def won_the_toss_length by simp
  show thesis
    by (rule that [OF a n b c])
qed

lemma ws_then_won_joined:
  assumes "ws \<noteq> []" and "\<forall>c \<in> set ws. is_space c" and "map toLowerCase_char y = ''won the toss''"
  shows "ws_then_won (ws @ y @ rest)"
proof -
  have l: "length y = 12"
    using lit_length [OF assms(3)] by simp
  then obtain a y' where y: "y = a # y'"
    by (cases y) auto
  with assms(3) have "toLowerCase_char a = CHR ''w''"
    by simp
  then have a: "\<not> is_space a"
    using space_not_w by blast
  have t: "takeWhile is_space (ws @ y @ rest) = ws"
    using assms(2) a y by (simp add: takeWhile_append2)
  have d: "dropWhile is_space (ws @ y @ rest) = y @ rest"
    using assms(2) a y by (simp add: dropWhile_append2)
  have "ci_prefix ''won the toss'' (y @ rest)"
    using assms(3) l by (simp add: ci_prefix_def)
  then show ?thesis
    using assms(1) by (simp add: ws_then_won_def t d)
qed

lemma lazy_winner_found:
  assumes "g \<noteq> []" and "\<forall>c \<in> set g. \<not> is_line_terminator c" and "ws_then_won s"
    and "\<forall>k. 0 < k \<and> k < length g \<longrightarrow> \<not> ws_then_won (drop k (g @ s))"
  shows "lazy_winner acc (g @ s) = Some (acc @ g)"
  using assms
proof (induction g arbitrary: acc)
  case Nil
  then show ?case by simp
next
  case (Cons c cs)
  have c: "\<not> is_line_terminator c"
    using Cons.prems(2) by simp
  show ?case
  proof (cases cs)
    case Nil
    with c Cons.prems(3) show ?thesis by simp
  next
    case (Cons d ds)
    have "0 < (1::nat) \<and> 1 < length (c # cs)"
      using Cons by simp
    with Cons.prems(4) have "\<not> ws_then_won (drop 1 ((c # cs) @ s))"
      by blast
    then have nw: "\<not> ws_then_won (cs @ s)"
      by simp
    have m: "\<forall>k. 0 < k \<and> k < length cs \<longrightarrow> \<not> ws_then_won (drop k (cs @ s))"
    proof (intro allI impI)
      fix k assume "0 < k \<and> k < length cs"
      then have "0 < Suc k \<and> Suc k < length (c # cs)" by simp
      with Cons.prems(4) have "\<not> ws_then_won (drop (Suc k) ((c # cs) @ s))" by blast
      then show "\<not> ws_then_won (drop k (cs @ s))" by simp
    qed
    have "lazy_winner (acc @ [c]) (cs @ s) = Some ((acc @ [c]) @ cs)"
      using Cons Cons.prems(2) Cons.prems(3) m by (intro Cons.IH) simp_all
    with c nw show ?thesis by simp
  qed
qed

lemma lazy_winner_none:
  assumes "\<forall>k. 0 < k \<and> k \<le> length s \<and> ws_then_won (drop k s)
             \<longrightarrow> (\<exists>c \<in> set (take k s). is_line_terminator c)"
  shows "lazy_winner acc s = None"
  using assms
proof (induction s arbitrary: acc)
  case Nil
  then show ?case by simp
next
  case (Cons c cs)
  show ?case
  proof (cases "is_line_terminator c")
    case True
    then show ?thesis by simp
  next
    case False
    have nw: "\<not> ws_then_won cs"
    proof
      assume "ws_then_won cs"
      then have "0 < (1::nat) \<and> 1 \<le> length (c # cs) \<and> ws_then_won (drop 1 (c # cs))"
        by simp
      with Cons.prems have "\<exists>x \<in> set (take 1 (c # cs)). is_line_terminator x"
        by blast
      with False show False by simp
    qed
    have "\<forall>k. 0 < k \<and> k \<le> length cs \<and> ws_then_won (drop k cs)
             \<longrightarrow> (\<exists>x \<in> set (take k cs). is_line_terminator x)"
    proof (intro allI impI)
      fix k assume k: "0 < k \<and> k \<le> length cs \<and> ws_then_won (drop k cs)"
      then have "0 < Suc k \<and> Suc k \<le> length (c # cs) \<and> ws_then_won (drop (Suc k) (c # cs))"
        by simp
      with Cons.prems have "\<exists>x \<in> set (take (Suc k) (c # cs)). is_line_terminator x"
        by blast
      with False show "\<exists>x \<in> set (take k cs). is_line_terminator x" by simp
    qed
    then have "lazy_winner (acc @ [c]) cs = None"
      by (rule Cons.IH)
    with False nw show ?thesis by simp
  qed
qed

lemma choice_none_before:
  assumes "\<forall>p x' c r. text = p @ x' @ c # r \<and> map toLowerCase_char x' = ''opt to '' \<and> is_word c
             \<longrightarrow> n \<le> length p"
    and "k < n" and "k \<le> length text"
  shows "choice_at (drop k text) = None"
proof (cases "choice_at (drop k text)")
  case None
  then show ?thesis .
next
  case (Some w)
  then obtain x' c r
    where d: "drop k text = x' @ c # r" and x: "map toLowerCase_char x' = ''opt to ''"
      and c: "is_word c"
    by (rule choice_at_split)
  have t: "text = take k text @ x' @ c # r"
    using d by (metis append_take_drop_id)
  have "n \<le> length (take k text)"
  proof (rule assms(1) [rule_format])
    show "text = take k text @ x' @ c # r \<and> map toLowerCase_char x' = ''opt to '' \<and> is_word c"
      by (intro conjI t x c)
  qed
  with assms(2) assms(3) show ?thesis by simp
qed

lemma winner_none_before:
  assumes "\<forall>g' ws' y' r. text = g' @ ws' @ y' @ r \<and> g' \<noteq> [] \<and> ws' \<noteq> []
             \<and> (\<forall>c \<in> set ws'. is_space c) \<and> map toLowerCase_char y' = ''won the toss''
             \<longrightarrow> P g'"
    and "0 < k" and "k \<le> length text" and "ws_then_won (drop k text)"
  shows "P (take k text)"
proof -
  from assms(4) obtain ws' y' r
    where d: "drop k text = ws' @ y' @ r" and w: "ws' \<noteq> []" and v: "\<forall>c \<in> set ws'. is_space c"
      and y: "map toLowerCase_char y' = ''won the toss''"
    by (rule ws_then_won_split)
  have t: "text = take k text @ ws' @ y' @ r"
    using d by (metis append_take_drop_id)
  have ne: "take k text \<noteq> []"
    using assms(2) assms(3) by (cases "text") auto
  show ?thesis
  proof (rule assms(1) [rule_format])
    show "text = take k text @ ws' @ y' @ r \<and> take k text \<noteq> [] \<and> ws' \<noteq> []
        \<and> (\<forall>c \<in> set ws'. is_space c) \<and> map toLowerCase_char y' = ''won the toss''"
      by (intro conjI t ne w v y)
  qed
qed

text \<open>
  Claim C9, as the code has it. The two patterns are read one by one and independently.

  \<open>tossChoice\<close>: take the first place in the toss sentence where \<open>opt to\<close> and a space, in
  any letter case, are directly followed by a word character (a letter, a digit or an
  underscore). When the sentence is \<open>pre\<close>, those seven characters \<open>x\<close>, a longest run
  \<open>word\<close> of word characters and \<open>post\<close>, with no such place further left, the choice is
  \<open>word\<close> in lower case, whatever the word is and whatever follows it. When there is no
  such place (\<open>t_plain\<close>), or no toss fact, the choice is the empty string. The choice is
  always made of lower-case letters, digits and underscores only.

  \<open>tossWinner\<close>: when the sentence is \<open>g\<close>, white space \<open>ws\<close>, the words \<open>won the toss\<close>
  in any letter case and \<open>rest\<close>, where \<open>g\<close> is not empty, holds no line feed and no
  carriage return, and is the shortest such beginning of the sentence, the winner is \<open>g\<close>.
  When every such beginning of the sentence holds a line feed or a carriage return, or there
  is none (\<open>t_other\<close>), the winner is the empty string.
\<close>

theorem toss_choice_is_any_word:
  assumes cx: "map toLowerCase_char x = ''opt to ''"
    and cw: "word \<noteq> []"
    and cs: "set word \<subseteq> set ''abcdefghijklmnopqrstuvwxyzABCDEFGHIJKLMNOPQRSTUVWXYZ0123456789_''"
    and cp: "\<forall>c r. post = c # r
               \<longrightarrow> c \<notin> set ''abcdefghijklmnopqrstuvwxyzABCDEFGHIJKLMNOPQRSTUVWXYZ0123456789_''"
    and cm: "\<forall>p x' c r. pre @ x @ word @ post = p @ x' @ c # r
               \<and> map toLowerCase_char x' = ''opt to ''
               \<and> c \<in> set ''abcdefghijklmnopqrstuvwxyzABCDEFGHIJKLMNOPQRSTUVWXYZ0123456789_''
               \<longrightarrow> length pre \<le> length p"
    and ca: "\<forall>p x' c r. t_plain = p @ x' @ c # r \<and> map toLowerCase_char x' = ''opt to ''
               \<longrightarrow> c \<notin> set ''abcdefghijklmnopqrstuvwxyzABCDEFGHIJKLMNOPQRSTUVWXYZ0123456789_''"
    and wg: "g \<noteq> []"
    and wl: "CHR 0x0A \<notin> set g \<and> CHR 0x0D \<notin> set g"
    and wn: "ws \<noteq> []"
    and ww: "set ws \<subseteq> {CHR 0x09, CHR 0x0A, CHR 0x0B, CHR 0x0C, CHR 0x0D, CHR '' '', CHR 0xA0}"
    and wy: "map toLowerCase_char y = ''won the toss''"
    and wm: "\<forall>g' ws' y' r. g @ ws @ y @ rest = g' @ ws' @ y' @ r \<and> g' \<noteq> [] \<and> ws' \<noteq> []
               \<and> set ws' \<subseteq> {CHR 0x09, CHR 0x0A, CHR 0x0B, CHR 0x0C, CHR 0x0D, CHR '' '', CHR 0xA0}
               \<and> map toLowerCase_char y' = ''won the toss''
               \<longrightarrow> length g \<le> length g'"
    and wa: "\<forall>g' ws' y' r. t_other = g' @ ws' @ y' @ r \<and> g' \<noteq> [] \<and> ws' \<noteq> []
               \<and> set ws' \<subseteq> {CHR 0x09, CHR 0x0A, CHR 0x0B, CHR 0x0C, CHR 0x0D, CHR '' '', CHR 0xA0}
               \<and> map toLowerCase_char y' = ''won the toss''
               \<longrightarrow> CHR 0x0A \<in> set g' \<or> CHR 0x0D \<in> set g'"
  shows "tossChoice (parseMatchInfo_toss (facts(''Toss'' \<mapsto> pre @ x @ word @ post))) = toLowerCase word
       \<and> tossChoice (parseMatchInfo_toss (facts(''Toss'' \<mapsto> t_plain))) = []
       \<and> tossWinner (parseMatchInfo_toss (facts(''Toss'' \<mapsto> g @ ws @ y @ rest))) = g
       \<and> tossWinner (parseMatchInfo_toss (facts(''Toss'' \<mapsto> t_other))) = []
       \<and> parseMatchInfo_toss (facts(''Toss'' := None)) = \<lparr>tossWinner = [], tossChoice = []\<rparr>
       \<and> set (tossChoice (parseMatchInfo_toss facts)) \<subseteq> set ''abcdefghijklmnopqrstuvwxyz0123456789_''"
proof -
  have sp: "(set v \<subseteq> {CHR 0x09, CHR 0x0A, CHR 0x0B, CHR 0x0C, CHR 0x0D, CHR '' '', CHR 0xA0}) =
      (\<forall>c \<in> set v. is_space c)" for v
    unfolding is_space_def by (rule subset_eq)
  have lt: "(a \<in> set v \<or> b \<in> set v) = (\<exists>c \<in> set v. c = a \<or> c = b)" for a b :: char and v
    by auto
  \<comment> \<open>the choice, found\<close>
  have cw': "\<forall>c \<in> set word. is_word c"
    using cs unfolding is_word_def subset_eq .
  have cp': "\<forall>c r. post = c # r \<longrightarrow> \<not> is_word c"
    using cp unfolding is_word_def .
  have cm': "\<forall>p x' c r. pre @ x @ word @ post = p @ x' @ c # r
      \<and> map toLowerCase_char x' = ''opt to '' \<and> is_word c \<longrightarrow> length pre \<le> length p"
    using cm unfolding is_word_def .
  have "\<forall>k < length pre. choice_at (drop k (pre @ x @ word @ post)) = None"
  proof (intro allI impI)
    fix k assume "k < length pre"
    then show "choice_at (drop k (pre @ x @ word @ post)) = None"
      by (intro choice_none_before [OF cm']) simp_all
  qed
  then have "first_match choice_at (pre @ x @ word @ post) =
      first_match choice_at (x @ word @ post)"
    by (rule first_match_skip)
  also have "\<dots> = Some word"
    by (intro first_match_hit choice_at_word cx cw cw' cp')
  finally have c1: "first_match choice_at (pre @ x @ word @ post) = Some word" .
  have found: "tossChoice (parseMatchInfo_toss (facts(''Toss'' \<mapsto> pre @ x @ word @ post))) =
      toLowerCase word"
    using c1 by (simp add: parseMatchInfo_toss_def Let_def or_empty_def)
  \<comment> \<open>the choice, absent\<close>
  have ca': "\<forall>p x' c r. t_plain = p @ x' @ c # r \<and> map toLowerCase_char x' = ''opt to '' \<and> is_word c
      \<longrightarrow> Suc (length t_plain) \<le> length p"
  proof (intro allI impI)
    fix p x' c r
    assume a: "t_plain = p @ x' @ c # r \<and> map toLowerCase_char x' = ''opt to '' \<and> is_word c"
    then have "t_plain = p @ x' @ c # r \<and> map toLowerCase_char x' = ''opt to ''"
      by (intro conjI) (elim conjE, assumption)+
    then have "\<not> is_word c"
      unfolding is_word_def by (rule ca [rule_format])
    with a show "Suc (length t_plain) \<le> length p"
      by (elim conjE) (erule notE, assumption)
  qed
  have "\<forall>u \<in> set (suffixes t_plain). choice_at u = None"
  proof
    fix u assume "u \<in> set (suffixes t_plain)"
    then obtain p where p: "t_plain = p @ u"
      by (auto simp add: in_set_suffixes suffix_def)
    then have "u = drop (length p) t_plain" and "length p \<le> length t_plain"
      by simp_all
    then show "choice_at u = None"
      using choice_none_before [OF ca', of "length p"] by simp
  qed
  then have c2: "first_match choice_at t_plain = None"
    by (simp add: first_match_None)
  have plain: "tossChoice (parseMatchInfo_toss (facts(''Toss'' \<mapsto> t_plain))) = []"
    using c2 by (simp add: parseMatchInfo_toss_def Let_def or_empty_def)
  \<comment> \<open>the winner, found\<close>
  have wl': "\<forall>c \<in> set g. \<not> is_line_terminator c"
    using wl unfolding is_line_terminator_def by auto
  have ww': "\<forall>c \<in> set ws. is_space c"
    using ww unfolding sp .
  have wm': "\<forall>g' ws' y' r. g @ ws @ y @ rest = g' @ ws' @ y' @ r \<and> g' \<noteq> [] \<and> ws' \<noteq> []
      \<and> (\<forall>c \<in> set ws'. is_space c) \<and> map toLowerCase_char y' = ''won the toss''
      \<longrightarrow> length g \<le> length g'"
    using wm unfolding sp .
  have w0: "ws_then_won (ws @ y @ rest)"
    by (rule ws_then_won_joined [OF wn ww' wy])
  have "\<forall>k. 0 < k \<and> k < length g \<longrightarrow> \<not> ws_then_won (drop k (g @ ws @ y @ rest))"
  proof (intro allI impI notI)
    fix k assume k: "0 < k \<and> k < length g" and w: "ws_then_won (drop k (g @ ws @ y @ rest))"
    have "length g \<le> length (take k (g @ ws @ y @ rest))"
      using k w by (intro winner_none_before [OF wm']) simp_all
    with k show False by simp
  qed
  then have w1: "lazy_winner [] (g @ ws @ y @ rest) = Some ([] @ g)"
    by (intro lazy_winner_found wg wl' w0)
  have winner: "tossWinner (parseMatchInfo_toss (facts(''Toss'' \<mapsto> g @ ws @ y @ rest))) = g"
    using w1 by (simp add: parseMatchInfo_toss_def Let_def or_empty_def)
  \<comment> \<open>the winner, absent\<close>
  have wa': "\<forall>g' ws' y' r. t_other = g' @ ws' @ y' @ r \<and> g' \<noteq> [] \<and> ws' \<noteq> []
      \<and> (\<forall>c \<in> set ws'. is_space c) \<and> map toLowerCase_char y' = ''won the toss''
      \<longrightarrow> (\<exists>c \<in> set g'. is_line_terminator c)"
    using wa unfolding sp lt is_line_terminator_def .
  have "\<forall>k. 0 < k \<and> k \<le> length t_other \<and> ws_then_won (drop k t_other)
      \<longrightarrow> (\<exists>c \<in> set (take k t_other). is_line_terminator c)"
  proof (intro allI impI)
    fix k assume "0 < k \<and> k \<le> length t_other \<and> ws_then_won (drop k t_other)"
    then show "\<exists>c \<in> set (take k t_other). is_line_terminator c"
      by (intro winner_none_before [OF wa']) simp_all
  qed
  then have w2: "lazy_winner [] t_other = None"
    by (rule lazy_winner_none)
  have other: "tossWinner (parseMatchInfo_toss (facts(''Toss'' \<mapsto> t_other))) = []"
    using w2 by (simp add: parseMatchInfo_toss_def Let_def or_empty_def)
  \<comment> \<open>no toss fact, and the shape of the choice\<close>
  have none: "parseMatchInfo_toss (facts(''Toss'' := None)) = \<lparr>tossWinner = [], tossChoice = []\<rparr>"
    by (simp add: parseMatchInfo_toss_def Let_def or_empty_def choice_at_def ci_prefix_def)
  have shape: "set (tossChoice (parseMatchInfo_toss facts)) \<subseteq> set ''abcdefghijklmnopqrstuvwxyz0123456789_''"
    using first_match_choice_word [of "or_empty (facts ''Toss'')"]
    by (simp add: parseMatchInfo_toss_def Let_def)
  show ?thesis
    by (intro conjI found plain winner other none shape)
qed

lemma all_below_list: "(\<forall>k<n. P k) = (\<forall>k \<in> set [0..<n]. P k)"
  by auto

lemma earliest_choice:
  assumes "\<forall>k<n. choice_at (drop k s) = None"
  shows "\<forall>p x' c r. s = p @ x' @ c # r \<and> map toLowerCase_char x' = ''opt to ''
           \<and> c \<in> set ''abcdefghijklmnopqrstuvwxyzABCDEFGHIJKLMNOPQRSTUVWXYZ0123456789_''
           \<longrightarrow> n \<le> length p"
proof (intro allI impI)
  fix p x' c r
  assume a: "s = p @ x' @ c # r \<and> map toLowerCase_char x' = ''opt to ''
    \<and> c \<in> set ''abcdefghijklmnopqrstuvwxyzABCDEFGHIJKLMNOPQRSTUVWXYZ0123456789_''"
  note s = a [THEN conjunct1] and x = a [THEN conjunct2, THEN conjunct1]
  have c: "is_word c"
    unfolding is_word_def by (rule a [THEN conjunct2, THEN conjunct2])
  have "choice_at (x' @ c # r) \<noteq> None"
    using x c by (rule choice_at_some)
  then have "choice_at (drop (length p) s) \<noteq> None"
    unfolding s by simp
  with assms show "n \<le> length p"
    by (meson not_le_imp_less)
qed

lemma no_choice:
  assumes "first_match choice_at s = None"
  shows "\<forall>p x' c r. s = p @ x' @ c # r \<and> map toLowerCase_char x' = ''opt to ''
           \<longrightarrow> c \<notin> set ''abcdefghijklmnopqrstuvwxyzABCDEFGHIJKLMNOPQRSTUVWXYZ0123456789_''"
proof (intro allI impI notI)
  fix p x' c r
  assume a: "s = p @ x' @ c # r \<and> map toLowerCase_char x' = ''opt to ''"
    and "c \<in> set ''abcdefghijklmnopqrstuvwxyzABCDEFGHIJKLMNOPQRSTUVWXYZ0123456789_''"
  then have c: "is_word c"
    unfolding is_word_def by simp
  note s = a [THEN conjunct1] and x = a [THEN conjunct2]
  have "x' @ c # r \<in> set (suffixes s)"
    unfolding s in_set_suffixes by (rule suffix_appendI) simp
  with assms have "choice_at (x' @ c # r) = None"
    unfolding first_match_None by (rule bspec)
  moreover have "choice_at (x' @ c # r) \<noteq> None"
    using x c by (rule choice_at_some)
  ultimately show False by simp
qed

lemma earliest_winner:
  assumes "\<forall>k<n. 0 < k \<longrightarrow> \<not> ws_then_won (drop k s)"
  shows "\<forall>g' ws' y' r. s = g' @ ws' @ y' @ r \<and> g' \<noteq> [] \<and> ws' \<noteq> []
           \<and> set ws' \<subseteq> {CHR 0x09, CHR 0x0A, CHR 0x0B, CHR 0x0C, CHR 0x0D, CHR '' '', CHR 0xA0}
           \<and> map toLowerCase_char y' = ''won the toss''
           \<longrightarrow> n \<le> length g'"
proof (intro allI impI)
  fix g' ws' y' r
  assume a: "s = g' @ ws' @ y' @ r \<and> g' \<noteq> [] \<and> ws' \<noteq> []
    \<and> set ws' \<subseteq> {CHR 0x09, CHR 0x0A, CHR 0x0B, CHR 0x0C, CHR 0x0D, CHR '' '', CHR 0xA0}
    \<and> map toLowerCase_char y' = ''won the toss''"
  note s = a [THEN conjunct1] and g = a [THEN conjunct2, THEN conjunct1]
    and w = a [THEN conjunct2, THEN conjunct2, THEN conjunct1]
    and y = a [THEN conjunct2, THEN conjunct2, THEN conjunct2, THEN conjunct2]
  have v: "\<forall>c \<in> set ws'. is_space c"
    using a [THEN conjunct2, THEN conjunct2, THEN conjunct2, THEN conjunct1]
    unfolding is_space_def subset_eq .
  have "ws_then_won (ws' @ y' @ r)"
    using w v y by (rule ws_then_won_joined)
  then have "ws_then_won (drop (length g') s)"
    unfolding s by simp
  moreover have "0 < length g'"
    using g by simp
  ultimately show "n \<le> length g'"
    using assms by (meson not_le_imp_less)
qed

lemma winner_terminated:
  assumes "\<forall>k<Suc (length s). 0 < k \<and> ws_then_won (drop k s)
             \<longrightarrow> CHR 0x0A \<in> set (take k s) \<or> CHR 0x0D \<in> set (take k s)"
  shows "\<forall>g' ws' y' r. s = g' @ ws' @ y' @ r \<and> g' \<noteq> [] \<and> ws' \<noteq> []
           \<and> set ws' \<subseteq> {CHR 0x09, CHR 0x0A, CHR 0x0B, CHR 0x0C, CHR 0x0D, CHR '' '', CHR 0xA0}
           \<and> map toLowerCase_char y' = ''won the toss''
           \<longrightarrow> CHR 0x0A \<in> set g' \<or> CHR 0x0D \<in> set g'"
proof (intro allI impI)
  fix g' ws' y' r
  assume a: "s = g' @ ws' @ y' @ r \<and> g' \<noteq> [] \<and> ws' \<noteq> []
    \<and> set ws' \<subseteq> {CHR 0x09, CHR 0x0A, CHR 0x0B, CHR 0x0C, CHR 0x0D, CHR '' '', CHR 0xA0}
    \<and> map toLowerCase_char y' = ''won the toss''"
  note s = a [THEN conjunct1] and g = a [THEN conjunct2, THEN conjunct1]
    and w = a [THEN conjunct2, THEN conjunct2, THEN conjunct1]
    and y = a [THEN conjunct2, THEN conjunct2, THEN conjunct2, THEN conjunct2]
  have v: "\<forall>c \<in> set ws'. is_space c"
    using a [THEN conjunct2, THEN conjunct2, THEN conjunct2, THEN conjunct1]
    unfolding is_space_def subset_eq .
  have "ws_then_won (ws' @ y' @ r)"
    using w v y by (rule ws_then_won_joined)
  then have d: "ws_then_won (drop (length g') s)"
    unfolding s by simp
  have k: "0 < length g'" "length g' < Suc (length s)"
    using g unfolding s by simp_all
  have "CHR 0x0A \<in> set (take (length g') s) \<or> CHR 0x0D \<in> set (take (length g') s)"
    using assms k d by blast
  then show "CHR 0x0A \<in> set g' \<or> CHR 0x0D \<in> set g'"
    unfolding s by simp
qed

lemmas toss_eval = parseMatchInfo_toss_def or_empty_def ws_then_won_def choice_at_def ci_prefix_def
  is_space_def is_word_def is_line_terminator_def toLowerCase_def toLowerCase_char_def Let_def

theorem toss_choice_is_any_word_witness:
  "tossChoice (parseMatchInfo_toss [''Toss'' \<mapsto> ''Sri Lanka won the toss and opt to Bowl first'']) =
     ''bowl''
   \<and> tossChoice (parseMatchInfo_toss [''Toss'' \<mapsto> ''India opt to - '']) = []
   \<and> tossWinner (parseMatchInfo_toss [''Toss'' \<mapsto> ''Sri Lanka won the toss and opt to Bowl first'']) =
     ''Sri Lanka''
   \<and> tossWinner (parseMatchInfo_toss [''Toss'' \<mapsto> ''Toss:'' @ [CHR 0x0A] @ ''India won the toss'']) = []"
proof -
  have cx: "map toLowerCase_char ''opt to '' = ''opt to ''"
    by (simp add: toLowerCase_char_def)
  have cw: "''Bowl'' \<noteq> []"
    by simp
  have cs: "set ''Bowl'' \<subseteq> set ''abcdefghijklmnopqrstuvwxyzABCDEFGHIJKLMNOPQRSTUVWXYZ0123456789_''"
    by simp
  have cp: "\<forall>c r. '' first'' = c # r
      \<longrightarrow> c \<notin> set ''abcdefghijklmnopqrstuvwxyzABCDEFGHIJKLMNOPQRSTUVWXYZ0123456789_''"
    by simp
  have e1: "\<forall>k<length ''Sri Lanka won the toss and ''.
      choice_at (drop k (''Sri Lanka won the toss and '' @ ''opt to '' @ ''Bowl'' @ '' first'')) = None"
    by (simp add: all_below_list upt_rec choice_at_def ci_prefix_def toLowerCase_char_def)
  have cm: "\<forall>p x' c r. ''Sri Lanka won the toss and '' @ ''opt to '' @ ''Bowl'' @ '' first'' = p @ x' @ c # r
      \<and> map toLowerCase_char x' = ''opt to ''
      \<and> c \<in> set ''abcdefghijklmnopqrstuvwxyzABCDEFGHIJKLMNOPQRSTUVWXYZ0123456789_''
      \<longrightarrow> length ''Sri Lanka won the toss and '' \<le> length p"
    by (rule earliest_choice [OF e1])
  have e2: "first_match choice_at ''India opt to - '' = None"
    by (simp add: choice_at_def ci_prefix_def toLowerCase_char_def is_word_def)
  have ca: "\<forall>p x' c r. ''India opt to - '' = p @ x' @ c # r \<and> map toLowerCase_char x' = ''opt to ''
      \<longrightarrow> c \<notin> set ''abcdefghijklmnopqrstuvwxyzABCDEFGHIJKLMNOPQRSTUVWXYZ0123456789_''"
    by (rule no_choice [OF e2])
  have wg: "''Sri Lanka'' \<noteq> []"
    by simp
  have wl: "CHR 0x0A \<notin> set ''Sri Lanka'' \<and> CHR 0x0D \<notin> set ''Sri Lanka''"
    by simp
  have wn: "'' '' \<noteq> []"
    by simp
  have ww: "set '' '' \<subseteq> {CHR 0x09, CHR 0x0A, CHR 0x0B, CHR 0x0C, CHR 0x0D, CHR '' '', CHR 0xA0}"
    by simp
  have wy: "map toLowerCase_char ''won the toss'' = ''won the toss''"
    by (simp add: toLowerCase_char_def)
  have e3: "\<forall>k<length ''Sri Lanka''. 0 < k \<longrightarrow> \<not> ws_then_won
      (drop k (''Sri Lanka'' @ '' '' @ ''won the toss'' @ '' and opt to Bowl first''))"
    by (simp add: all_below_list upt_rec ws_then_won_def ci_prefix_def is_space_def
        toLowerCase_char_def)
  have wm: "\<forall>g' ws' y' r. ''Sri Lanka'' @ '' '' @ ''won the toss'' @ '' and opt to Bowl first'' =
        g' @ ws' @ y' @ r \<and> g' \<noteq> [] \<and> ws' \<noteq> []
      \<and> set ws' \<subseteq> {CHR 0x09, CHR 0x0A, CHR 0x0B, CHR 0x0C, CHR 0x0D, CHR '' '', CHR 0xA0}
      \<and> map toLowerCase_char y' = ''won the toss''
      \<longrightarrow> length ''Sri Lanka'' \<le> length g'"
    by (rule earliest_winner [OF e3])
  have e4: "\<forall>k<Suc (length (''Toss:'' @ [CHR 0x0A] @ ''India won the toss'')).
      0 < k \<and> ws_then_won (drop k (''Toss:'' @ [CHR 0x0A] @ ''India won the toss''))
      \<longrightarrow> CHR 0x0A \<in> set (take k (''Toss:'' @ [CHR 0x0A] @ ''India won the toss''))
        \<or> CHR 0x0D \<in> set (take k (''Toss:'' @ [CHR 0x0A] @ ''India won the toss''))"
    by (simp add: all_below_list upt_rec ws_then_won_def ci_prefix_def is_space_def
        toLowerCase_char_def)
  have wa: "\<forall>g' ws' y' r. ''Toss:'' @ [CHR 0x0A] @ ''India won the toss'' = g' @ ws' @ y' @ r
      \<and> g' \<noteq> [] \<and> ws' \<noteq> []
      \<and> set ws' \<subseteq> {CHR 0x09, CHR 0x0A, CHR 0x0B, CHR 0x0C, CHR 0x0D, CHR '' '', CHR 0xA0}
      \<and> map toLowerCase_char y' = ''won the toss''
      \<longrightarrow> CHR 0x0A \<in> set g' \<or> CHR 0x0D \<in> set g'"
    by (rule winner_terminated [OF e4])
  show ?thesis
    using toss_choice_is_any_word [OF cx cw cs cp cm ca wg wl wn ww wy wm wa, of Map.empty]
    by (simp add: toLowerCase_def toLowerCase_char_def)
qed

lemma toss_second_opt_to:
  "parseMatchInfo_toss [''Toss'' \<mapsto> ''India opt to - then opt to bat''] =
     \<lparr>tossWinner = [], tossChoice = ''bat''\<rparr>"
  by (simp add: toss_eval)

lemma toss_winner_line_feed:
  "tossWinner (parseMatchInfo_toss [''Toss'' \<mapsto> ''India'' @ [CHR 0x0A] @ ''won the toss'']) = ''India''"
  by (simp add: toss_eval)

lemma toss_two_word_team:
  "parseMatchInfo_toss [''Toss'' \<mapsto> ''Sri Lanka won the toss and opt to bat''] =
     \<lparr>tossWinner = ''Sri Lanka'', tossChoice = ''bat''\<rparr>"
  by (simp add: toss_eval)

text \<open>
  The claim C9 as the specification states it fails: the word after \<open>opt to\<close> is taken
  whatever it is, so \<open>tossChoice\<close> is \<open>field\<close> for a captain who opts to field; and it is
  \<open>bat\<close> for a sentence that has no \<open>won the toss\<close> in it.
\<close>

theorem toss_choice_field_counterexample:
  "tossChoice (parseMatchInfo_toss [''Toss'' \<mapsto> ''India won the toss and opt to field'']) = ''field''
   \<and> parseMatchInfo_toss [''Toss'' \<mapsto> ''Captains opt to bat''] =
       \<lparr>tossWinner = [], tossChoice = ''bat''\<rparr>"
  by (simp add: toss_eval)

end
